theory Spec2Isabelle
  imports Main "HOL-Library.Word"
begin

unbundle bit_operations_syntax

section \<open>The machine: a 32-bit byte-addressed memory\<close>

text \<open>
  \<^verbatim>\<open>mm.c\<close> is written for a 32-bit target: a word is 4 bytes (\<^verbatim>\<open>WSIZE\<close>), block
  tags are read and written through \<^verbatim>\<open>size_t *\<close>, and free-list links through
  \<^verbatim>\<open>void **\<close>, both 4 bytes wide. Addresses, sizes and stored pointers are therefore
  32-bit words whose arithmetic wraps around. Memory is an array of bytes; a 4-byte access
  is little-endian.
\<close>

type_synonym addr = "32 word"
type_synonym memory = "32 word \<Rightarrow> 8 word"

text \<open>
  The globals of \<^verbatim>\<open>mm.c\<close> (\<^verbatim>\<open>heap_listp\<close>, \<^verbatim>\<open>free_listp\<close>) together with the state of
  the heap provider (first heap byte, current break, and the address the break may not
  exceed).
\<close>

record state =
  mem :: memory
  mem_start_brk :: addr
  mem_brk :: addr
  mem_max_addr :: addr
  heap_listp :: addr
  free_listp :: addr

definition load32 :: "memory \<Rightarrow> addr \<Rightarrow> 32 word" where
  "load32 m p = ucast (m p) OR push_bit 8 (ucast (m (p + 1)))
     OR push_bit 16 (ucast (m (p + 2))) OR push_bit 24 (ucast (m (p + 3)))"

definition store32 :: "memory \<Rightarrow> addr \<Rightarrow> 32 word \<Rightarrow> memory" where
  "store32 m p v = m(p := ucast v, p + 1 := ucast (drop_bit 8 v),
     p + 2 := ucast (drop_bit 16 v), p + 3 := ucast (drop_bit 24 v))"

text \<open>
  \<^verbatim>\<open>memcpy(dst, src, n)\<close> for regions that do not overlap: every byte of
  \<^verbatim>\<open>[dst, dst + n)\<close> receives the byte at the same offset from \<^verbatim>\<open>src\<close>.
\<close>

definition memcpy :: "memory \<Rightarrow> addr \<Rightarrow> addr \<Rightarrow> 32 word \<Rightarrow> memory" where
  "memcpy m dst src n = (\<lambda>x. if x - dst < n then m (src + (x - dst)) else m x)"

section \<open>The heap provider\<close>

text \<open>
  Modelled from the spec: \<^verbatim>\<open>memlib.c\<close> (\<^verbatim>\<open>mem_sbrk\<close>, \<^verbatim>\<open>mem_heap_lo\<close>,
  \<^verbatim>\<open>mem_heap_hi\<close>) is not part of the sources. The spec's \<^verbatim>\<open>grow(n)\<close> extends the heap by
  exactly \<^verbatim>\<open>n\<close> bytes and returns the previous high-water mark, or signals failure; the
  failure value is the all-ones pointer that \<^verbatim>\<open>extend_heap\<close> tests for, and a refused
  request leaves the provider unchanged.
\<close>

definition mem_sbrk :: "state \<Rightarrow> 32 word \<Rightarrow> state \<times> addr" where
  "mem_sbrk s incr =
     (if unat (mem_brk s) + unat incr \<le> unat (mem_max_addr s)
      then (s\<lparr>mem_brk := mem_brk s + incr\<rparr>, mem_brk s)
      else (s, - 1))"

text \<open>
  Modelled from the spec: \<^verbatim>\<open>lo()\<close> is the address of the first heap byte and \<^verbatim>\<open>hi()\<close>
  the address of the last one (the inclusive reading of the spec's high bound).
\<close>

definition mem_heap_lo :: "state \<Rightarrow> addr" where
  "mem_heap_lo s = mem_start_brk s"

definition mem_heap_hi :: "state \<Rightarrow> addr" where
  "mem_heap_hi s = mem_brk s - 1"

section \<open>Constants and macros of \<^verbatim>\<open>mm.c\<close>\<close>

definition WSIZE :: "32 word" where "WSIZE = 4"
definition DSIZE :: "32 word" where "DSIZE = 8"
definition CHUNKSIZE :: "32 word" where "CHUNKSIZE = 16"
definition OVERHEAD :: "32 word" where "OVERHEAD = 24"

definition ALIGN :: "32 word \<Rightarrow> 32 word" where
  "ALIGN sz = (sz + 7) AND NOT 7"

definition MAX_macro :: "32 word \<Rightarrow> 32 word \<Rightarrow> 32 word" where
  "MAX_macro x y = (if x > y then x else y)"

definition PACK :: "32 word \<Rightarrow> 32 word \<Rightarrow> 32 word" where
  "PACK sz alloc = sz OR alloc"

definition GET :: "state \<Rightarrow> addr \<Rightarrow> 32 word" where
  "GET s p = load32 (mem s) p"

definition PUT :: "state \<Rightarrow> addr \<Rightarrow> 32 word \<Rightarrow> state" where
  "PUT s p v = s\<lparr>mem := store32 (mem s) p v\<rparr>"

definition GET_SIZE :: "state \<Rightarrow> addr \<Rightarrow> 32 word" where
  "GET_SIZE s p = GET s p AND NOT 7"

definition GET_ALLOC :: "state \<Rightarrow> addr \<Rightarrow> 32 word" where
  "GET_ALLOC s p = GET s p AND 1"

definition HDRP :: "addr \<Rightarrow> addr" where
  "HDRP bp = bp - WSIZE"

definition FTRP :: "state \<Rightarrow> addr \<Rightarrow> addr" where
  "FTRP s bp = bp + GET_SIZE s (HDRP bp) - DSIZE"

definition NEXT_BLKP :: "state \<Rightarrow> addr \<Rightarrow> addr" where
  "NEXT_BLKP s bp = bp + GET_SIZE s (HDRP bp)"

definition PREV_BLKP :: "state \<Rightarrow> addr \<Rightarrow> addr" where
  "PREV_BLKP s bp = bp - GET_SIZE s (HDRP bp - WSIZE)"

definition NEXT_FREEP :: "state \<Rightarrow> addr \<Rightarrow> addr" where
  "NEXT_FREEP s bp = GET s (bp + DSIZE)"

definition PREV_FREEP :: "state \<Rightarrow> addr \<Rightarrow> addr" where
  "PREV_FREEP s bp = GET s bp"

text \<open>The adjusted block size both \<^verbatim>\<open>mm_malloc\<close> and \<^verbatim>\<open>mm_realloc\<close> compute.\<close>

definition adjusted :: "32 word \<Rightarrow> 32 word" where
  "adjusted sz = MAX_macro (ALIGN sz + DSIZE) OVERHEAD"

section \<open>The free list\<close>

definition insert_at_front :: "state \<Rightarrow> addr \<Rightarrow> state" where
  "insert_at_front s bp =
     (let s1 = PUT s (bp + DSIZE) (free_listp s);
          s2 = PUT s1 (free_listp s1) bp;
          s3 = PUT s2 bp 0
      in s3\<lparr>free_listp := bp\<rparr>)"

definition remove_block :: "state \<Rightarrow> addr \<Rightarrow> state" where
  "remove_block s bp =
     (let s1 = (if PREV_FREEP s bp \<noteq> 0
                then PUT s (PREV_FREEP s bp + DSIZE) (NEXT_FREEP s bp)
                else s\<lparr>free_listp := NEXT_FREEP s bp\<rparr>)
      in PUT s1 (NEXT_FREEP s1 bp) (PREV_FREEP s1 bp))"

section \<open>Coalescing, heap extension, placement\<close>

definition coalesce :: "state \<Rightarrow> addr \<Rightarrow> state \<times> addr" where
  "coalesce s bp =
     (let previous_alloc =
            (GET_ALLOC s (FTRP s (PREV_BLKP s bp)) \<noteq> 0 \<or> PREV_BLKP s bp = bp);
          next_alloc = (GET_ALLOC s (HDRP (NEXT_BLKP s bp)) \<noteq> 0);
          sz = GET_SIZE s (HDRP bp)
      in if previous_alloc \<and> \<not> next_alloc then
           (let sz1 = sz + GET_SIZE s (HDRP (NEXT_BLKP s bp));
                s1 = remove_block s (NEXT_BLKP s bp);
                s2 = PUT s1 (HDRP bp) (PACK sz1 0);
                s3 = PUT s2 (FTRP s2 bp) (PACK sz1 0)
            in (insert_at_front s3 bp, bp))
         else if \<not> previous_alloc \<and> next_alloc then
           (let sz1 = sz + GET_SIZE s (HDRP (PREV_BLKP s bp));
                bp1 = PREV_BLKP s bp;
                s1 = remove_block s bp1;
                s2 = PUT s1 (HDRP bp1) (PACK sz1 0);
                s3 = PUT s2 (FTRP s2 bp1) (PACK sz1 0)
            in (insert_at_front s3 bp1, bp1))
         else if \<not> previous_alloc \<and> \<not> next_alloc then
           (let sz1 = sz + (GET_SIZE s (HDRP (PREV_BLKP s bp))
                                + GET_SIZE s (HDRP (NEXT_BLKP s bp)));
                s1 = remove_block s (PREV_BLKP s bp);
                s2 = remove_block s1 (NEXT_BLKP s1 bp);
                bp1 = PREV_BLKP s2 bp;
                s3 = PUT s2 (HDRP bp1) (PACK sz1 0);
                s4 = PUT s3 (FTRP s3 bp1) (PACK sz1 0)
            in (insert_at_front s4 bp1, bp1))
         else (insert_at_front s bp, bp))"

definition extend_heap :: "state \<Rightarrow> 32 word \<Rightarrow> state \<times> addr" where
  "extend_heap s words =
     (let sz0 = (if words mod 2 \<noteq> 0 then (words + 1) * WSIZE else words * WSIZE);
          sz = (if sz0 < OVERHEAD then OVERHEAD else sz0);
          (s1, bp) = mem_sbrk s sz
      in if bp = - 1 then (s1, 0)
         else
           (let s2 = PUT s1 (HDRP bp) (PACK sz 0);
                s3 = PUT s2 (FTRP s2 bp) (PACK sz 0);
                s4 = PUT s3 (HDRP (NEXT_BLKP s3 bp)) (PACK 0 1)
            in coalesce s4 bp))"

definition place :: "state \<Rightarrow> addr \<Rightarrow> 32 word \<Rightarrow> state" where
  "place s bp sz =
     (let totalsize = GET_SIZE s (HDRP bp)
      in if totalsize - sz \<ge> OVERHEAD then
           (let s1 = PUT s (HDRP bp) (PACK sz 1);
                s2 = PUT s1 (FTRP s1 bp) (PACK sz 1);
                s3 = remove_block s2 bp;
                bp1 = NEXT_BLKP s3 bp;
                s4 = PUT s3 (HDRP bp1) (PACK (totalsize - sz) 0);
                s5 = PUT s4 (FTRP s4 bp1) (PACK (totalsize - sz) 0)
            in fst (coalesce s5 bp1))
         else
           (let s1 = PUT s (HDRP bp) (PACK totalsize 1);
                s2 = PUT s1 (FTRP s1 bp) (PACK totalsize 1)
            in remove_block s2 bp))"

text \<open>
  The first-fit search follows next-free links until it meets a block whose header has the
  allocated bit set. On a cyclic list of too-small free blocks the loop of the source never
  ends; that is the value \<open>None\<close>.
\<close>

partial_function (option) find_fit_from :: "state \<Rightarrow> 32 word \<Rightarrow> addr \<Rightarrow> addr option" where
  "find_fit_from s sz bp =
     (if GET_ALLOC s (HDRP bp) = 0
      then (if sz \<le> GET_SIZE s (HDRP bp) then Some bp
            else find_fit_from s sz (NEXT_FREEP s bp))
      else Some 0)"

declare find_fit_from.simps [code]

definition find_fit :: "state \<Rightarrow> 32 word \<Rightarrow> addr option" where
  "find_fit s sz = find_fit_from s sz (free_listp s)"

section \<open>The allocator surface\<close>

definition mm_init :: "state \<Rightarrow> state \<times> int" where
  "mm_init s =
     (let (s0, p) = mem_sbrk s (2 * OVERHEAD);
          s1 = s0\<lparr>heap_listp := p\<rparr>
      in if p = 0 then (s1, - 1)
         else
           (let s2 = PUT s1 (heap_listp s1) 0;
                s3 = PUT s2 (heap_listp s2 + WSIZE) (PACK OVERHEAD 1);
                s4 = PUT s3 (heap_listp s3 + DSIZE) 0;
                s5 = PUT s4 (heap_listp s4 + DSIZE + WSIZE) 0;
                s6 = PUT s5 (heap_listp s5 + OVERHEAD) (PACK OVERHEAD 1);
                s7 = PUT s6 (heap_listp s6 + WSIZE + OVERHEAD) (PACK 0 1);
                s8 = s7\<lparr>free_listp := heap_listp s7 + DSIZE\<rparr>;
                (s9, r) = extend_heap s8 (CHUNKSIZE div WSIZE)
            in if r = 0 then (s9, - 1) else (s9, 0)))"

definition mm_malloc :: "state \<Rightarrow> 32 word \<Rightarrow> (state \<times> addr) option" where
  "mm_malloc s sz =
     (if sz \<le> 0 then Some (s, 0)
      else
        (let adjustedsize = MAX_macro (ALIGN sz + DSIZE) OVERHEAD
         in case find_fit s adjustedsize of
              None \<Rightarrow> None
            | Some bp \<Rightarrow>
                if bp \<noteq> 0 then Some (place s bp adjustedsize, bp)
                else
                  (let extendedsize = MAX_macro adjustedsize CHUNKSIZE;
                       (s1, bp1) = extend_heap s (extendedsize div WSIZE)
                   in if bp1 = 0 then Some (s1, 0)
                      else Some (place s1 bp1 adjustedsize, bp1))))"

definition mm_free :: "state \<Rightarrow> addr \<Rightarrow> state" where
  "mm_free s bp =
     (if bp = 0 then s
      else
        (let sz = GET_SIZE s (HDRP bp);
             s1 = PUT s (HDRP bp) (PACK sz 0);
             s2 = PUT s1 (FTRP s1 bp) (PACK sz 0)
         in fst (coalesce s2 bp)))"

definition mm_realloc :: "state \<Rightarrow> addr \<Rightarrow> 32 word \<Rightarrow> (state \<times> addr) option" where
  "mm_realloc s bp sz =
     (let adjustedsize = MAX_macro (ALIGN sz + DSIZE) OVERHEAD
      in if sz \<le> 0 then Some (mm_free s bp, 0)
         else if bp = 0 then mm_malloc s sz
         else
           (let oldsize = GET_SIZE s (HDRP bp)
            in if oldsize = adjustedsize then Some (s, bp)
               else if adjustedsize \<le> oldsize then
                 (let sz1 = adjustedsize
                  in if oldsize - sz1 \<le> OVERHEAD then Some (s, bp)
                     else
                       (let s1 = PUT s (HDRP bp) (PACK sz1 1);
                            s2 = PUT s1 (FTRP s1 bp) (PACK sz1 1);
                            s3 = PUT s2 (HDRP (NEXT_BLKP s2 bp)) (PACK (oldsize - sz1) 1)
                        in Some (mm_free s3 (NEXT_BLKP s3 bp), bp)))
               else
                 (case mm_malloc s sz of
                    None \<Rightarrow> None
                  | Some (s1, newbp) \<Rightarrow>
                      if newbp = 0 then Some (s1, 0)
                      else
                        (let oldsize1 = (if sz < oldsize then sz else oldsize);
                             s2 = s1\<lparr>mem := memcpy (mem s1) newbp bp oldsize1\<rparr>
                         in Some (mm_free s2 bp, newbp)))))"

section \<open>The consistency checker\<close>

definition check_block :: "state \<Rightarrow> addr \<Rightarrow> int" where
  "check_block s bp =
     (if NEXT_FREEP s bp < mem_heap_lo s \<or> NEXT_FREEP s bp > mem_heap_hi s then - 1
      else if PREV_FREEP s bp < mem_heap_lo s \<or> PREV_FREEP s bp > mem_heap_hi s then - 1
      else if bp mod 8 \<noteq> 0 then - 1
      else if GET s (HDRP bp) \<noteq> GET s (FTRP s bp) then - 1
      else 0)"

partial_function (option) mm_check_from :: "state \<Rightarrow> addr \<Rightarrow> int option" where
  "mm_check_from s bp =
     (if GET_ALLOC s (HDRP bp) = 0
      then (if check_block s bp = - 1 then Some (- 1)
            else mm_check_from s (NEXT_FREEP s bp))
      else Some 0)"

declare mm_check_from.simps [code]

definition mm_check :: "state \<Rightarrow> int option" where
  "mm_check s =
     (if GET_SIZE s (HDRP (heap_listp s)) \<noteq> OVERHEAD \<or> GET_ALLOC s (HDRP (heap_listp s)) = 0
      then Some (- 1)
      else if check_block s (heap_listp s) = - 1 then Some (- 1)
      else mm_check_from s (free_listp s))"

section \<open>Memory as an array of words\<close>

text \<open>
  Every access the allocator makes is a 4-byte access at a multiple of 4 from the heap base.
  Seen from a base address, such a memory is a function from word indices to words; the
  lemmas below relate byte-level loads, stores and copies to that view, which is what
  concrete heaps are evaluated with.
\<close>

definition byte_of :: "32 word \<Rightarrow> nat \<Rightarrow> 8 word" where
  "byte_of w k = ucast (drop_bit (8 * k) w)"

definition wmem :: "addr \<Rightarrow> (nat \<Rightarrow> 32 word) \<Rightarrow> memory" where
  "wmem b f = (\<lambda>a. byte_of (f (unat (a - b) div 4)) (unat (a - b) mod 4))"

lemma bytes_recombine:
  "ucast (byte_of w 0) OR push_bit 8 (ucast (byte_of w 1)) OR push_bit 16 (ucast (byte_of w 2))
     OR push_bit 24 (ucast (byte_of w 3)) = (w :: 32 word)"
  unfolding byte_of_def
  apply (rule bit_word_eqI)
  apply (simp add: bit_simps)
  subgoal for n
    apply (cases "n < 8"; cases "n < 16"; cases "n < 24")
    apply (auto simp: bit_simps)
    done
  done

lemma unat_off_plus:
  fixes a b :: "32 word"
  assumes "unat (a - b) mod 4 = 0" "k < 4"
  shows "unat (a + of_nat k - b) = unat (a - b) + k"
proof -
  have lt: "unat (a - b) < 4294967296" using unsigned_less [of "a - b"] by simp
  from assms lt have "unat (a - b) + k < 4294967296" by presburger
  then have bound: "unat (a - b) + k < 2 ^ 32" by simp
  have eq: "a + of_nat k - b = (a - b) + of_nat k" by simp
  have "unat ((a - b) + of_nat k) = unat (a - b) + k"
    using bound assms(2) by (simp add: unat_word_ariths unat_of_nat)
  then show ?thesis unfolding eq .
qed

lemma store32_at: "k < 4 \<Longrightarrow> store32 m a v (a + of_nat k) = byte_of v k"
proof -
  assume "k < 4"
  then consider "k = 0" | "k = 1" | "k = 2" | "k = 3" by linarith
  then show ?thesis
    by cases (simp_all add: store32_def byte_of_def)
qed

lemma store32_other:
  "x \<noteq> p \<Longrightarrow> x \<noteq> p + 1 \<Longrightarrow> x \<noteq> p + 2 \<Longrightarrow> x \<noteq> p + 3 \<Longrightarrow> store32 m p v x = m x"
  by (simp add: store32_def)

lemma wmem_byte:
  fixes a b :: "32 word"
  assumes "unat (a - b) mod 4 = 0" "k < 4"
  shows "wmem b f (a + of_nat k) = byte_of (f (unat (a - b) div 4)) k"
proof -
  from assms(1) obtain q where q: "unat (a - b) = 4 * q" by (auto simp: mod_eq_0_iff_dvd elim: dvdE)
  have "(4 * q + k) div 4 = q" "(4 * q + k) mod 4 = k" using assms(2) by simp_all
  then show ?thesis
    using unat_off_plus [OF assms] q by (simp add: wmem_def)
qed

lemma load32_wmem:
  assumes "unat (a - b) mod 4 = 0"
  shows "load32 (wmem b f) a = f (unat (a - b) div 4)"
proof -
  have h0: "wmem b f a = byte_of (f (unat (a - b) div 4)) 0"
    using wmem_byte [OF assms, of 0 f] by simp
  have h1: "wmem b f (a + 1) = byte_of (f (unat (a - b) div 4)) 1"
    using wmem_byte [OF assms, of 1 f] by simp
  have h2: "wmem b f (a + 2) = byte_of (f (unat (a - b) div 4)) 2"
    using wmem_byte [OF assms, of 2 f] by simp
  have h3: "wmem b f (a + 3) = byte_of (f (unat (a - b) div 4)) 3"
    using wmem_byte [OF assms, of 3 f] by simp
  show ?thesis
    unfolding load32_def h0 h1 h2 h3 by (rule bytes_recombine)
qed

lemma store32_wmem:
  assumes "unat (a - b) mod 4 = 0"
  shows "store32 (wmem b f) a v = wmem b (f(unat (a - b) div 4 := v))"
proof (rule ext)
  fix x :: "32 word"
  from assms obtain q where q: "unat (a - b) = 4 * q" by (auto simp: mod_eq_0_iff_dvd elim: dvdE)
  have off: "unat (a + of_nat k - b) = 4 * q + k" if "k < 4" for k
    using unat_off_plus [OF assms that] q by simp
  have inj: "x = a + of_nat k \<longleftrightarrow> unat (x - b) = 4 * q + k" if "k < 4" for k
  proof
    assume "x = a + of_nat k" then show "unat (x - b) = 4 * q + k" using off [OF that] by simp
  next
    assume "unat (x - b) = 4 * q + k"
    then have "unat (x - b) = unat (a + of_nat k - b)" using off [OF that] by simp
    then have "x - b = a + of_nat k - b" by (simp only: word_unat_eq_iff)
    then show "x = a + of_nat k" by simp
  qed
  have i0: "x = a \<longleftrightarrow> unat (x - b) = 4 * q" using inj [of 0] by simp
  have i1: "x = a + 1 \<longleftrightarrow> unat (x - b) = 4 * q + 1" using inj [of 1] by simp
  have i2: "x = a + 2 \<longleftrightarrow> unat (x - b) = 4 * q + 2" using inj [of 2] by simp
  have i3: "x = a + 3 \<longleftrightarrow> unat (x - b) = 4 * q + 3" using inj [of 3] by simp
  have d: "(4 * q + k) div 4 = q" "(4 * q + k) mod 4 = k" if "k < 4" for k using that by simp_all
  obtain r k where rk: "unat (x - b) = 4 * r + k" "k < 4"
    by (metis mod_less_divisor mult_div_mod_eq zero_less_numeral)
  have dr: "(4 * r + k) div 4 = r" "(4 * r + k) mod 4 = k" using rk(2) by simp_all
  have ne: "4 * r + k \<noteq> 4 * q + j" if "r \<noteq> q" "j < 4" for j using that rk(2) by presburger
  have rhs: "wmem b (f(unat (a - b) div 4 := v)) x = byte_of ((f(q := v)) r) k"
    unfolding wmem_def rk(1) dr q by simp
  show "store32 (wmem b f) a v x = wmem b (f(unat (a - b) div 4 := v)) x"
  proof (cases "r = q")
    case True
    have "x = a + of_nat k" using inj [OF rk(2)] rk(1) True by simp
    then have "store32 (wmem b f) a v x = byte_of v k" using store32_at [OF rk(2)] by simp
    then show ?thesis using rhs True by simp
  next
    case False
    have "x \<noteq> a" "x \<noteq> a + 1" "x \<noteq> a + 2" "x \<noteq> a + 3"
      using i0 i1 i2 i3 rk(1) ne [OF False, of 0] ne [OF False, of 1] ne [OF False, of 2] ne [OF False, of 3]
      by simp_all
    then have "store32 (wmem b f) a v x = wmem b f x" by (rule store32_other)
    also have "\<dots> = byte_of (f r) k" unfolding wmem_def rk(1) dr ..
    finally show ?thesis using rhs False by simp
  qed
qed

lemma zero_mem_wmem: "(\<lambda>_. 0) = wmem b (\<lambda>_. 0)"
  by (rule ext) (simp add: wmem_def byte_of_def)




lemma memcpy_wmem:
  fixes dst src b n :: "32 word"
  assumes d: "unat (dst - b) mod 4 = 0" and s: "unat (src - b) mod 4 = 0" and n: "unat n mod 4 = 0"
    and db: "unat (dst - b) + unat n \<le> 4294967296" and sb: "unat (src - b) + unat n \<le> 4294967296"
  shows "memcpy (wmem b f) dst src n =
         wmem b (\<lambda>i. if unat (dst - b) div 4 \<le> i \<and> i < unat (dst - b) div 4 + unat n div 4
                      then f (unat (src - b) div 4 + (i - unat (dst - b) div 4)) else f i)"
proof (rule ext)
  fix x :: "32 word"
  define D where "D = unat (dst - b)"
  define S where "S = unat (src - b)"
  define N where "N = unat n"
  define X where "X = unat (x - b)"
  have X32: "X < 4294967296" unfolding X_def using unsigned_less [of "x - b"] by simp
  have D32: "D < 4294967296" unfolding D_def using unsigned_less [of "dst - b"] by simp
  have xd: "x - dst = (x - b) - (dst - b)" by simp
  have inside: "x - dst < n \<longleftrightarrow> D \<le> X \<and> X < D + N"
  proof (cases "D \<le> X")
    case True
    then have "dst - b \<le> x - b" by (simp add: word_le_nat_alt D_def X_def)
    then have "unat (x - dst) = X - D" unfolding xd D_def X_def by (rule unat_sub)
    then show ?thesis using True by (auto simp: word_less_nat_alt N_def)
  next
    case False
    then have lt: "x - b < dst - b" by (simp add: word_less_nat_alt D_def X_def)
    have "unat (x - dst) = 4294967296 + X - D"
      using unat_sub_if_size [of "x - b" "dst - b"] False
      by (simp add: word_size D_def X_def)
    moreover have "D + N \<le> 4294967296" using db unfolding D_def N_def .
    ultimately have "\<not> unat (x - dst) < N" using False by linarith
    then show ?thesis using False by (simp add: word_less_nat_alt N_def)
  qed
  show "memcpy (wmem b f) dst src n x =
        wmem b (\<lambda>i. if unat (dst - b) div 4 \<le> i \<and> i < unat (dst - b) div 4 + unat n div 4
                      then f (unat (src - b) div 4 + (i - unat (dst - b) div 4)) else f i) x"
  proof (cases "D \<le> X \<and> X < D + N")
    case True
    then have "dst - b \<le> x - b" by (simp add: word_le_nat_alt D_def X_def)
    then have u: "unat (x - dst) = X - D" unfolding xd D_def X_def by (rule unat_sub)
    have "S + (X - D) < 4294967296" using True sb unfolding S_def N_def by linarith
    then have "unat (src - b) + unat (x - dst) < 2 ^ LENGTH(32)" unfolding u S_def by simp
    then have "unat ((src - b) + (x - dst)) = unat (src - b) + unat (x - dst)"
      by (rule unat_add_lem [THEN iffD1])
    then have so: "unat ((src - b) + (x - dst)) = S + (X - D)" unfolding u S_def .
    have se: "src + (x - dst) - b = (src - b) + (x - dst)" by simp
    have src_off: "unat (src + (x - dst) - b) = S + (X - D)" unfolding se by (rule so)
    from d s n obtain d' s' n' where q: "D = 4 * d'" "S = 4 * s'" "N = 4 * n'"
      unfolding D_def S_def N_def by (auto simp: mod_eq_0_iff_dvd elim!: dvdE)
    obtain r k where rk: "X = 4 * r + k" "k < 4"
      by (metis mod_less_divisor mult_div_mod_eq zero_less_numeral)
    have r: "d' \<le> r" "r < d' + n'" using True q rk by presburger+
    have e1: "S + (X - D) = 4 * (s' + (r - d')) + k" using q rk r by simp
    have dv: "(4 * j + k) div 4 = j" "(4 * j + k) mod 4 = k" for j using rk(2) by simp_all
    have "memcpy (wmem b f) dst src n x = wmem b f (src + (x - dst))"
      using inside True by (simp add: memcpy_def)
    also have "\<dots> = byte_of (f (s' + (r - d'))) k"
      unfolding wmem_def src_off e1 dv ..
    finally have lhs: "memcpy (wmem b f) dst src n x = byte_of (f (s' + (r - d'))) k" .
    have idx: "unat (x - b) div 4 = r" "unat (x - b) mod 4 = k"
      unfolding X_def [symmetric] rk(1) by (rule dv)+
    have rhs: "wmem b G x = byte_of (G r) k" for G unfolding wmem_def idx ..
    have cs: "unat (dst - b) div 4 = d'" "unat (src - b) div 4 = s'" "unat n div 4 = n'"
      unfolding D_def [symmetric] S_def [symmetric] N_def [symmetric] q by simp_all
    show ?thesis unfolding lhs rhs cs using r by simp
  next
    case False
    from d n obtain d' n' where q: "D = 4 * d'" "N = 4 * n'"
      unfolding D_def N_def by (auto simp: mod_eq_0_iff_dvd elim!: dvdE)
    obtain r k where rk: "X = 4 * r + k" "k < 4"
      by (metis mod_less_divisor mult_div_mod_eq zero_less_numeral)
    have r: "\<not> (d' \<le> r \<and> r < d' + n')"
    proof
      assume "d' \<le> r \<and> r < d' + n'"
      then have "D \<le> X" "X < D + N" using q rk by linarith+
      then show False using False by simp
    qed
    have dv: "(4 * j + k) div 4 = j" "(4 * j + k) mod 4 = k" for j using rk(2) by simp_all
    have "memcpy (wmem b f) dst src n x = wmem b f x"
      using inside False by (simp add: memcpy_def)
    also have "\<dots> = byte_of (f r) k" unfolding wmem_def X_def [symmetric] rk(1) dv ..
    finally have lhs: "memcpy (wmem b f) dst src n x = byte_of (f r) k" .
    have idx: "unat (x - b) div 4 = r" "unat (x - b) mod 4 = k"
      unfolding X_def [symmetric] rk(1) by (rule dv)+
    have rhs: "wmem b G x = byte_of (G r) k" for G unfolding wmem_def idx ..
    have cs: "unat (dst - b) div 4 = d'" "unat n div 4 = n'"
      unfolding D_def [symmetric] N_def [symmetric] q by simp_all
    show ?thesis unfolding lhs rhs cs using r by auto
  qed
qed

section \<open>Basic facts about the operations\<close>

text \<open>
  None of the list and tag operations touches the heap provider's bounds, and the adjusted
  size is a multiple of 8 that is at least the minimum block size.
\<close>

lemmas const_defs = WSIZE_def DSIZE_def CHUNKSIZE_def OVERHEAD_def

lemma PUT_fields [simp]:
  "mem_brk (PUT s p v) = mem_brk s" "mem_start_brk (PUT s p v) = mem_start_brk s"
  "mem_max_addr (PUT s p v) = mem_max_addr s" "heap_listp (PUT s p v) = heap_listp s"
  "free_listp (PUT s p v) = free_listp s"
  by (simp_all add: PUT_def)

lemma insert_at_front_fields [simp]:
  "mem_brk (insert_at_front s p) = mem_brk s" "mem_start_brk (insert_at_front s p) = mem_start_brk s"
  "mem_max_addr (insert_at_front s p) = mem_max_addr s" "heap_listp (insert_at_front s p) = heap_listp s"
  "free_listp (insert_at_front s p) = p"
  by (simp_all add: insert_at_front_def Let_def)

lemma remove_block_fields [simp]:
  "mem_brk (remove_block s p) = mem_brk s" "mem_start_brk (remove_block s p) = mem_start_brk s"
  "mem_max_addr (remove_block s p) = mem_max_addr s" "heap_listp (remove_block s p) = heap_listp s"
  by (simp_all add: remove_block_def Let_def)

lemma coalesce_fields [simp]:
  "mem_brk (fst (coalesce s p)) = mem_brk s" "mem_start_brk (fst (coalesce s p)) = mem_start_brk s"
  "mem_max_addr (fst (coalesce s p)) = mem_max_addr s" "heap_listp (fst (coalesce s p)) = heap_listp s"
  by (simp_all add: coalesce_def Let_def)

lemma place_fields [simp]:
  "mem_brk (place s p n) = mem_brk s" "mem_start_brk (place s p n) = mem_start_brk s"
  "mem_max_addr (place s p n) = mem_max_addr s" "heap_listp (place s p n) = heap_listp s"
  by (simp_all add: place_def Let_def)

lemma mm_free_fields [simp]:
  "mem_brk (mm_free s p) = mem_brk s" "mem_start_brk (mm_free s p) = mem_start_brk s"
  "mem_max_addr (mm_free s p) = mem_max_addr s" "heap_listp (mm_free s p) = heap_listp s"
  by (simp_all add: mm_free_def Let_def)

lemma ALIGN_aligned: "ALIGN sz AND 7 = 0"
  unfolding ALIGN_def
  by (rule bit_word_eqI) (auto simp: bit_simps)

lemma aligned_dvd: "(w :: 32 word) AND 7 = 0 \<longleftrightarrow> 8 dvd unat w"
  using and_mask_dvd_nat [of 3 w] by (simp add: mask_numeral)

lemma lt32: "unat (w :: 32 word) < 4294967296"
  using unsigned_less [of w] by simp

lemma aligned_plus8: "(w :: 32 word) AND 7 = 0 \<Longrightarrow> (w + 8) AND 7 = 0"
proof -
  assume "w AND 7 = 0"
  then have d: "8 dvd unat w + 8" by (simp add: aligned_dvd)
  have "unat (w + 8) = (unat w + 8) mod 4294967296" by (simp add: unat_word_ariths)
  moreover have "(8::nat) dvd 4294967296" by simp
  then have "8 dvd (unat w + 8) mod 4294967296" using d by (rule dvd_mod [rotated])
  ultimately show ?thesis by (simp add: aligned_dvd)
qed

lemma adjusted_aligned: "adjusted sz AND 7 = 0"
  using aligned_plus8 [OF ALIGN_aligned, of sz]
  by (simp add: adjusted_def MAX_macro_def const_defs)

lemma adjusted_ge: "OVERHEAD \<le> adjusted sz"
  by (auto simp: adjusted_def MAX_macro_def const_defs)

lemma extend_size_adjusted:
  fixes a :: "32 word"
  assumes "a AND 7 = 0"
  shows "a div 4 mod 2 = 0" "a div 4 * 4 = a"
proof -
  from assms obtain k where k: "unat a = 8 * k" by (auto simp: aligned_dvd elim: dvdE)
  have u4: "unat (a div 4) = 2 * k" using k by (simp add: unat_div)
  have "unat (a div 4 mod 2) = 0" using u4 by (simp add: unat_mod)
  then show "a div 4 mod 2 = 0" by (simp add: unat_eq_0)
  have "unat (a div 4 * 4) = (2 * k * 4) mod 4294967296" using u4 by (simp add: unat_word_ariths)
  also have "\<dots> = unat a" using k lt32 [of a] by simp
  finally show "a div 4 * 4 = a" by (simp only: word_unat_eq_iff)
qed

lemma unat_and_not7: "unat ((x :: 32 word) AND NOT 7) = unat x div 8 * 8"
proof -
  have m: "NOT 7 = NOT (mask 3 :: 32 word)" by (simp add: mask_numeral)
  have "x AND NOT (mask 3) = push_bit 3 (drop_bit 3 x)"
    by (rule bit_word_eqI) (auto simp: bit_simps)
  then have "unat (x AND NOT 7) = unat (push_bit 3 (drop_bit 3 x))"
    unfolding m by simp
  also have "\<dots> = take_bit 32 (push_bit 3 (drop_bit 3 (unat x)))"
    by (simp add: unsigned_push_bit_eq unat_drop_bit_eq)
  also have "\<dots> = take_bit 32 (unat x div 8 * 8)"
    by (simp add: push_bit_eq_mult drop_bit_eq_div)
  also have "\<dots> = unat x div 8 * 8"
    using lt32 [of x] by (simp add: take_bit_nat_eq_self_iff)
  finally show ?thesis .
qed

lemma unat_and_neg8: "unat ((x :: 32 word) AND - 8) = unat x div 8 * 8"
  using unat_and_not7 [of x] by simp

lemma div8_top:
  assumes "4294967280 < (u::nat)" "u \<le> 4294967288"
  shows "(u + 7) div 8 * 8 = 4294967288"
proof -
  have "u + 7 = 8 * 536870911 + (u - 4294967281)" using assms by linarith
  moreover have "u - 4294967281 < 8" using assms by linarith
  ultimately have "(u + 7) div 8 = 536870911" by simp
  then show ?thesis by simp
qed

lemma wrap_small:
  assumes "4294967288 < (u::nat)" "u < 4294967296"
  shows "(u + 7) mod 4294967296 div 8 * 8 = 0"
proof -
  have e: "u + 7 = 4294967296 + (u - 4294967289)" using assms by linarith
  have l: "u - 4294967289 < 8" using assms by linarith
  have "(u + 7) mod 4294967296 = (u - 4294967289) mod 4294967296"
    unfolding e by (rule mod_add_self1)
  also have "\<dots> = u - 4294967289" using l by simp
  finally show ?thesis using l by simp
qed

lemma adjusted_overflow:
  assumes "0xFFFFFFF0 < sz"
  shows "adjusted sz = OVERHEAD"
proof -
  have lo: "4294967280 < unat sz" using assms by (simp add: word_less_nat_alt)
  have s7: "unat (sz + 7) = (unat sz + 7) mod 4294967296" by (simp add: unat_word_ariths)
  have al: "unat (ALIGN sz) = unat (sz + 7) div 8 * 8"
    unfolding ALIGN_def by (rule unat_and_not7)
  have "unat (ALIGN sz + 8) < 24"
  proof (cases "unat sz \<le> 4294967288")
    case True
    have "unat sz + 7 < 4294967296" using True by linarith
    then have "unat (sz + 7) = unat sz + 7" unfolding s7 by (rule mod_less)
    then have "unat (ALIGN sz) = 4294967288"
      unfolding al using div8_top [OF lo True] by simp
    then show ?thesis by (simp add: unat_word_ariths)
  next
    case False
    then have "4294967288 < unat sz" by simp
    then have "unat (ALIGN sz) = 0"
      unfolding al s7 using lt32 [of sz] by (rule wrap_small)
    then show ?thesis by (simp add: unat_word_ariths)
  qed
  then have "\<not> 24 < ALIGN sz + 8" by (simp add: word_less_nat_alt)
  then show ?thesis
    by (simp add: adjusted_def MAX_macro_def const_defs)
qed

lemma max_adjusted_chunk: "MAX_macro (adjusted sz) CHUNKSIZE = adjusted sz"
proof -
  have "24 \<le> unat (adjusted sz)" using adjusted_ge [of sz] by (simp add: const_defs word_le_nat_alt)
  then have "16 < adjusted sz" by (simp add: word_less_nat_alt)
  then show ?thesis by (simp add: MAX_macro_def const_defs)
qed

section \<open>Concrete heaps\<close>

text \<open>
  A fresh provider: zero-filled memory, an 8-aligned first heap byte and a megabyte of room.
  \<open>heap_after_init\<close> is the state \<^verbatim>\<open>mm_init\<close> leaves; the other two are reached by one
  \<^verbatim>\<open>mm_malloc\<close> of 24 and of 48 bytes.
\<close>

definition fresh_heap :: state where
  "fresh_heap = \<lparr>mem = (\<lambda>_. 0), mem_start_brk = 4096, mem_brk = 4096,
     mem_max_addr = 1052672, heap_listp = 0, free_listp = 0\<rparr>"

definition heap_after_init :: state where
  "heap_after_init = fst (mm_init fresh_heap)"

definition heap_one_block :: state where
  "heap_one_block = fst (the (mm_malloc heap_after_init 24))"

definition heap_big_block :: state where
  "heap_big_block = fst (the (mm_malloc heap_after_init 48))"

lemma fresh_heap_wmem:
  "fresh_heap = \<lparr>mem = wmem 4096 (\<lambda>_. 0), mem_start_brk = 4096, mem_brk = 4096,
     mem_max_addr = 1052672, heap_listp = 0, free_listp = 0\<rparr>"
  unfolding fresh_heap_def by (simp add: zero_mem_wmem [of 4096])

lemmas eval_defs = heap_big_block_def heap_one_block_def heap_after_init_def fresh_heap_wmem
  mm_init_def mm_malloc_def mm_free_def mm_realloc_def mem_sbrk_def adjusted_def
  OVERHEAD_def WSIZE_def DSIZE_def CHUNKSIZE_def ALIGN_def MAX_macro_def
  PUT_def GET_def extend_heap_def coalesce_def place_def Let_def PACK_def HDRP_def FTRP_def
  GET_SIZE_def GET_ALLOC_def NEXT_BLKP_def PREV_BLKP_def NEXT_FREEP_def PREV_FREEP_def
  insert_at_front_def remove_block_def find_fit_def find_fit_from.simps
  mm_check_def mm_check_from.simps check_block_def mem_heap_lo_def mem_heap_hi_def
  load32_wmem store32_wmem memcpy_wmem

lemma init_succeeds: "snd (mm_init fresh_heap) = 0"
  by (simp add: eval_defs cong: let_weak_cong)

lemma one_block_facts:
  "mm_malloc heap_after_init 24 \<noteq> None"
  "snd (the (mm_malloc heap_after_init 24)) = 4144"
  "GET_SIZE heap_one_block (HDRP 4144) = 32"
  "GET_ALLOC heap_one_block (HDRP 4144) = 1"
  by (simp_all add: eval_defs cong: let_weak_cong)

lemma big_block_facts:
  "snd (the (mm_malloc heap_after_init 48)) = 4144"
  "GET_SIZE heap_big_block (HDRP 4144) = 56"
  by (simp_all add: eval_defs cong: let_weak_cong)

section \<open>Word positions\<close>

text \<open>
The allocator touches memory only through aligned 4-byte words. The invariants below are
  stated over positions and the words found there.
\<close>

text \<open>
  A position is a byte address as a natural number; \<open>W\<close> is the pointer for it.
\<close>

definition W :: "nat \<Rightarrow> 32 word" where
  "W k = of_nat k"

text \<open>
  The 4-byte word at a position, read and written.
\<close>

definition rd :: "memory \<Rightarrow> nat \<Rightarrow> 32 word" where
  "rd m k = load32 m (W k)"

definition wr :: "memory \<Rightarrow> nat \<Rightarrow> 32 word \<Rightarrow> memory" where
  "wr m k v = store32 m (W k) v"

text \<open>
  The positions the allocator reads and writes: multiples of 4 whose word does not wrap.
\<close>

definition pos_ok :: "nat \<Rightarrow> bool" where
  "pos_ok k \<longleftrightarrow> 4 dvd k \<and> k + 4 \<le> 4294967296"

text \<open>
  A boundary tag: the block size with the allocated bit, as \<^verbatim>\<open>PACK\<close> builds it.
\<close>

definition tag :: "nat \<Rightarrow> bool \<Rightarrow> 32 word" where
  "tag n a = W n OR (if a then 1 else 0)"

lemma unat_W: "k < 4294967296 \<Longrightarrow> unat (W k) = k"
  by (simp add: W_def unat_of_nat)

lemma W_unat: "W (unat w) = w"
  by (simp add: W_def)

lemma W_inj: "a < 4294967296 \<Longrightarrow> b < 4294967296 \<Longrightarrow> W a = W b \<longleftrightarrow> a = b"
  by (metis unat_W)

lemma W_add: "W a + W b = W (a + b)"
  by (simp add: W_def)

lemma W_sub: "b \<le> a \<Longrightarrow> W a - W b = W (a - b)"
  by (simp add: W_def)

lemma W_numeral: "W (numeral k) = numeral k" "W 0 = 0" "W 1 = 1"
  by (simp_all add: W_def)

lemma W_plus_num: "W a + numeral k = W (a + numeral k)"
  by (simp add: W_def)

lemma W_minus_num: "numeral k \<le> a \<Longrightarrow> W a - numeral k = W (a - numeral k)"
  by (simp add: W_def)

lemma W_eq_0: "a < 4294967296 \<Longrightarrow> W a = 0 \<longleftrightarrow> a = 0"
  using W_inj [of a 0] by (simp add: W_numeral)

lemma W_le: "a < 4294967296 \<Longrightarrow> b < 4294967296 \<Longrightarrow> W a \<le> W b \<longleftrightarrow> a \<le> b"
  by (simp add: word_le_nat_alt unat_W)

lemma W_less: "a < 4294967296 \<Longrightarrow> b < 4294967296 \<Longrightarrow> W a < W b \<longleftrightarrow> a < b"
  by (simp add: word_less_nat_alt unat_W)

lemma load32_store32_same: "load32 (store32 m p v) p = v"
  unfolding load32_def store32_def
  apply (rule bit_word_eqI)
  apply (simp add: bit_simps)
  subgoal for n
    apply (cases "n < 8"; cases "n < 16"; cases "n < 24")
    apply (auto simp: bit_simps)
    done
  done

lemma load32_cong:
  "m' p = m p \<Longrightarrow> m' (p + 1) = m (p + 1) \<Longrightarrow> m' (p + 2) = m (p + 2) \<Longrightarrow> m' (p + 3) = m (p + 3)
   \<Longrightarrow> load32 m' p = load32 m p"
  by (simp add: load32_def)

lemma rd_wr_same: "rd (wr m k v) k = v"
  by (simp add: rd_def wr_def load32_store32_same)

lemma byte_addr_neq:
  assumes "pos_ok j" "pos_ok k" "j \<noteq> k" "a < 4" "b < 4"
  shows "W j + of_nat a \<noteq> W k + of_nat b"
proof
  assume e: "W j + of_nat a = W k + of_nat b"
  from assms obtain j' k' where jk: "j = 4 * j'" "k = 4 * k'"
    by (auto simp: pos_ok_def elim!: dvdE)
  have bj: "j + a < 4294967296" "k + b < 4294967296"
    using assms by (auto simp: pos_ok_def)
  have "W j + of_nat a = W (j + a)" "W k + of_nat b = W (k + b)" by (simp_all add: W_def)
  then have "j + a = k + b" using e bj by (simp add: W_inj)
  then have "4 * j' + a = 4 * k' + b" using jk by simp
  moreover have "j' \<noteq> k'" using assms(3) jk by simp
  ultimately show False using assms(4,5) by presburger
qed

lemma rd_wr_other:
  assumes "pos_ok j" "pos_ok k" "j \<noteq> k"
  shows "rd (wr m k v) j = rd m j"
proof -
  have n: "W j + of_nat a \<noteq> W k + of_nat b" if "a < 4" "b < 4" for a b
    using byte_addr_neq [OF assms that] .
  have o: "store32 m (W k) v (W j + of_nat a) = m (W j + of_nat a)" if "a < 4" for a
    using n [OF that, of 0] n [OF that, of 1] n [OF that, of 2] n [OF that, of 3]
    by (intro store32_other) simp_all
  show ?thesis
    unfolding rd_def wr_def
    using o [of 0] o [of 1] o [of 2] o [of 3] by (intro load32_cong) simp_all
qed

lemma rd_wr: "pos_ok j \<Longrightarrow> pos_ok k \<Longrightarrow> rd (wr m k v) j = (if j = k then v else rd m j)"
  by (simp add: rd_wr_same rd_wr_other)

lemma low_bits_clear:
  fixes w :: "32 word"
  assumes "w AND 7 = 0" "bit w i"
  shows "3 \<le> i"
proof (rule ccontr)
  assume "\<not> 3 \<le> i"
  then have "bit (w AND mask 3) i" using assms(2) by (simp add: bit_simps)
  moreover have "w AND mask 3 = 0" using assms(1) by (simp add: mask_numeral)
  ultimately show False by simp
qed

lemma bit7: "bit (7 :: 32 word) i \<longleftrightarrow> i < 3"
proof -
  have e: "(7 :: 32 word) = mask 3" by (simp add: mask_numeral)
  show ?thesis unfolding e by (auto simp: bit_mask_iff)
qed

lemma or_flag_size:
  fixes w :: "32 word"
  assumes "w AND 7 = 0"
  shows "(w OR (if a then 1 else 0)) AND NOT 7 = w"
proof -
  have e: "NOT (7 :: 32 word) = NOT (mask 3)" by (simp add: mask_numeral)
  have "(w OR (if a then 1 else 0)) AND NOT (mask 3) = w"
  proof (rule bit_word_eqI)
    fix i assume "i < LENGTH(32)"
    then show "bit ((w OR (if a then 1 else 0)) AND NOT (mask 3)) i = bit w i"
      using low_bits_clear [OF assms, of i]
      by (cases a) (auto simp: bit_simps)
  qed
  then show ?thesis unfolding e .
qed

lemma or_flag_alloc:
  fixes w :: "32 word"
  assumes "w AND 7 = 0"
  shows "(w OR (if a then 1 else 0)) AND 1 = (if a then 1 else 0)"
proof (rule bit_word_eqI)
  fix i assume "i < LENGTH(32)"
  show "bit ((w OR (if a then 1 else 0)) AND 1) i = bit (if a then 1 else 0 :: 32 word) i"
    using low_bits_clear [OF assms, of i] \<open>i < LENGTH(32)\<close>
    by (cases a) (auto simp: bit_simps)
qed

lemma W_aligned: "8 dvd n \<Longrightarrow> n < 4294967296 \<Longrightarrow> W n AND 7 = 0"
  by (simp add: aligned_dvd unat_W)

lemma tag_size: "8 dvd n \<Longrightarrow> n < 4294967296 \<Longrightarrow> tag n a AND NOT 7 = W n"
  unfolding tag_def by (rule or_flag_size) (rule W_aligned)

lemma tag_alloc: "8 dvd n \<Longrightarrow> n < 4294967296 \<Longrightarrow> tag n a AND 1 = (if a then 1 else 0)"
  unfolding tag_def by (rule or_flag_alloc) (rule W_aligned)

lemma PACK_tag: "PACK (W n) 1 = tag n True" "PACK (W n) 0 = tag n False"
  by (simp_all add: PACK_def tag_def)

section \<open>The free list as a chain of links\<close>

text \<open>
  The free list seen from memory. \<open>links m S cur prev fl\<close>: starting at the pointer
  \<open>cur\<close>, whose predecessor is \<open>prev\<close>, the next-free links visit the blocks at the
  positions \<open>fl\<close> in that order and end at the sentinel \<open>S\<close>; every previous-free link,
  the sentinel's included, names the block before.
\<close>

fun links :: "memory \<Rightarrow> nat \<Rightarrow> 32 word \<Rightarrow> 32 word \<Rightarrow> nat list \<Rightarrow> bool" where
  "links m S cur prev [] = (cur = W S \<and> rd m S = prev)"
| "links m S cur prev (x # xs) = (cur = W x \<and> rd m x = prev \<and> links m S (rd m (x + 8)) (W x) xs)"

text \<open>
  The words that hold the links of such a list.
\<close>

definition link_addrs :: "nat \<Rightarrow> nat list \<Rightarrow> nat set" where
  "link_addrs S fl = insert S (set fl \<union> (\<lambda>x. x + 8) ` set fl)"

text \<open>
  Two list members lie far enough apart for their link words not to overlap, and a member sits
  where both link words fit.
\<close>

definition far :: "nat \<Rightarrow> nat \<Rightarrow> bool" where
  "far y z \<longleftrightarrow> y + 16 \<le> z \<or> z + 16 \<le> y"

definition place_ok :: "nat \<Rightarrow> bool" where
  "place_ok y \<longleftrightarrow> 8 dvd y \<and> 0 < y \<and> y + 12 \<le> 4294967296"

definition spaced :: "nat list \<Rightarrow> bool" where
  "spaced ps \<longleftrightarrow> distinct ps \<and> (\<forall>y\<in>set ps. place_ok y)
     \<and> (\<forall>y\<in>set ps. \<forall>z\<in>set ps. y \<noteq> z \<longrightarrow> far y z)"

lemma pos_ok_8:
  assumes "place_ok y"
  shows "pos_ok y" "pos_ok (y + 8)"
proof -
  from assms obtain q where q: "y = 8 * q" by (auto simp: place_ok_def elim: dvdE)
  have "y = 4 * (2 * q)" "y + 8 = 4 * (2 * q + 2)" using q by simp_all
  then have "4 dvd y" "4 dvd (y + 8)" by (metis dvd_triv_left)+
  moreover have "y + 12 \<le> 4294967296" using assms by (simp add: place_ok_def)
  ultimately show "pos_ok y" "pos_ok (y + 8)" by (simp_all add: pos_ok_def)
qed

lemma place_ok_lt:
  assumes "place_ok y"
  shows "y < 4294967296" "0 < y"
proof -
  have "y + 12 \<le> 4294967296" "0 < y" using assms by (simp_all add: place_ok_def)
  then show "y < 4294967296" "0 < y" by linarith+
qed

lemma spaced_far:
  "spaced ps \<Longrightarrow> y \<in> set ps \<Longrightarrow> z \<in> set ps \<Longrightarrow> y \<noteq> z \<Longrightarrow> far y z"
  unfolding spaced_def by blast

lemma spaced_subset: "spaced ps \<Longrightarrow> set qs \<subseteq> set ps \<Longrightarrow> distinct qs \<Longrightarrow> spaced qs"
  unfolding spaced_def by blast

lemma spaced_distinct: "spaced ps \<Longrightarrow> distinct ps"
  unfolding spaced_def by blast

lemma spaced_place_ok: "spaced ps \<Longrightarrow> y \<in> set ps \<Longrightarrow> place_ok y"
  unfolding spaced_def by blast

lemma spaced_pos_ok:
  assumes "spaced ps" "y \<in> set ps"
  shows "pos_ok y" "pos_ok (y + 8)"
  using pos_ok_8 [OF spaced_place_ok [OF assms]] .

lemma spaced_lt:
  assumes "spaced ps" "y \<in> set ps"
  shows "y < 4294967296" "0 < y"
  using place_ok_lt [OF spaced_place_ok [OF assms]] .

lemma spaced_tl: "spaced (a # ps) \<Longrightarrow> spaced ps"
  by (rule spaced_subset) (auto dest: spaced_distinct)

lemma spaced_drop2: "spaced (a # b # ps) \<Longrightarrow> spaced (a # ps)"
  by (rule spaced_subset) (auto dest: spaced_distinct)

lemma in_link_addrsE:
  assumes "k \<in> link_addrs S fl"
  obtains "k = S" | "k \<in> set fl" | z where "z \<in> set fl" "k = z + 8"
  using assms unfolding link_addrs_def by blast

lemma not_in_link_addrs:
  assumes sp: "spaced ps" and k: "k \<in> set ps" and sub: "set (S # fl) \<subseteq> set ps"
    and nk: "k \<notin> set (S # fl)"
  shows "k \<notin> link_addrs S fl" "k + 8 \<notin> link_addrs S fl"
proof -
  have far: "k + 16 \<le> z \<or> z + 16 \<le> k" if "z \<in> set (S # fl)" for z
  proof -
    have "z \<in> set ps" using that sub by blast
    moreover have "k \<noteq> z" using that nk by blast
    ultimately have "far k z" using spaced_far [OF sp k] by blast
    then show ?thesis by (simp add: far_def)
  qed
  show "k \<notin> link_addrs S fl"
  proof
    assume "k \<in> link_addrs S fl"
    then show False
    proof (cases rule: in_link_addrsE)
      case 1 then show ?thesis using nk by simp
    next
      case 2 then show ?thesis using nk by simp
    next
      case (3 z) then show ?thesis using far [of z] by simp
    qed
  qed
  show "k + 8 \<notin> link_addrs S fl"
  proof
    assume "k + 8 \<in> link_addrs S fl"
    then show False
    proof (cases rule: in_link_addrsE)
      case 1 then show ?thesis using far [of S] by simp
    next
      case 2 then show ?thesis using far [of "k + 8"] by simp
    next
      case (3 z) then show ?thesis using nk by simp
    qed
  qed
qed

lemma link_addrs_ok:
  assumes "spaced (S # fl)"
  shows "\<forall>j\<in>link_addrs S fl. pos_ok j"
proof
  fix j assume "j \<in> link_addrs S fl"
  then show "pos_ok j"
  proof (cases rule: in_link_addrsE)
    case 1 then show ?thesis using spaced_pos_ok(1) [OF assms, of S] by simp
  next
    case 2 then show ?thesis using spaced_pos_ok(1) [OF assms, of j] by simp
  next
    case (3 z) then show ?thesis using spaced_pos_ok(2) [OF assms, of z] by simp
  qed
qed

lemma links_wr_other:
  assumes "pos_ok k" "k \<notin> link_addrs S fl" "\<forall>j\<in>link_addrs S fl. pos_ok j"
  shows "links (wr m k v) S c p fl = links m S c p fl"
  using assms
proof (induction fl arbitrary: c p)
  case Nil
  then show ?case by (simp add: link_addrs_def rd_wr_other)
next
  case (Cons x xs)
  have sub: "link_addrs S xs \<subseteq> link_addrs S (x # xs)" unfolding link_addrs_def by auto
  have x: "x \<in> link_addrs S (x # xs)" "x + 8 \<in> link_addrs S (x # xs)"
    unfolding link_addrs_def by auto
  have "pos_ok x" "x \<noteq> k" "pos_ok (x + 8)" "x + 8 \<noteq> k" using Cons.prems x by blast+
  then have r: "rd (wr m k v) x = rd m x" "rd (wr m k v) (x + 8) = rd m (x + 8)"
    using Cons.prems(1) by (simp_all add: rd_wr_other)
  have "k \<notin> link_addrs S xs" "\<forall>j\<in>link_addrs S xs. pos_ok j" using Cons.prems sub by blast+
  then have "links (wr m k v) S c' p' xs = links m S c' p' xs" for c' p'
    using Cons.IH [of c' p'] Cons.prems(1) by blast
  then show ?case by (simp add: r)
qed

lemma links_head: "links m S c p fl \<Longrightarrow> c = W (hd (fl @ [S]))"
  by (cases fl) simp_all

lemma links_head_prev: "links m S c p fl \<Longrightarrow> rd m (hd (fl @ [S])) = p"
  by (cases fl) simp_all

lemma hd_app_sentinel: "hd (fl @ [S]) \<in> set (S # fl)"
  by (cases fl) simp_all

text \<open>Changing the previous-free link of the head of a chain.\<close>

lemma links_set_prev:
  assumes lk: "links m S c p fl" and sp: "spaced (S # fl)"
  shows "links (wr m (hd (fl @ [S])) q) S c q fl"
proof (cases fl)
  case Nil
  then show ?thesis using lk by (simp add: rd_wr_same)
next
  case (Cons h t)
  have spt: "spaced (S # t)" using spaced_drop2 [of S h t] sp Cons by simp
  have ok: "\<forall>j\<in>link_addrs S t. pos_ok j" using link_addrs_ok [OF spt] .
  have d: "distinct (S # h # t)" using spaced_distinct [OF sp] Cons by simp
  have h: "h \<notin> link_addrs S t"
    by (rule not_in_link_addrs(1) [OF sp]) (use Cons d in auto)
  have ph: "pos_ok h" "pos_ok (h + 8)" using spaced_pos_ok [OF sp, of h] Cons by auto
  have "h + 8 \<noteq> h" by simp
  then have r: "rd (wr m h q) (h + 8) = rd m (h + 8)" using ph by (simp add: rd_wr_other)
  have "links (wr m h q) S (rd m (h + 8)) (W h) t = links m S (rd m (h + 8)) (W h) t"
    using links_wr_other [OF ph(1) h ok] .
  then show ?thesis using lk Cons by (simp add: rd_wr_same r)
qed

text \<open>Inserting a new position in front.\<close>

lemma links_insert:
  assumes lk: "links m S c 0 fl" and sp: "spaced (S # x # fl)"
  shows "links (wr (wr (wr m (x + 8) c) (hd (fl @ [S])) (W x)) x 0) S (W x) 0 (x # fl)"
proof -
  let ?h = "hd (fl @ [S])"
  let ?m1 = "wr m (x + 8) c"
  let ?m2 = "wr ?m1 ?h (W x)"
  let ?m3 = "wr ?m2 x 0"
  have sp': "spaced (S # fl)" using spaced_drop2 [OF sp] .
  have ok: "\<forall>j\<in>link_addrs S fl. pos_ok j" using link_addrs_ok [OF sp'] .
  have px: "pos_ok x" "pos_ok (x + 8)" using spaced_pos_ok [OF sp, of x] by auto
  have d: "distinct (S # x # fl)" using spaced_distinct [OF sp] .
  have xn: "x \<notin> link_addrs S fl" "x + 8 \<notin> link_addrs S fl"
    by (rule not_in_link_addrs [OF sp]; use d in auto)+
  have hin: "?h \<in> set (S # fl)" by (rule hd_app_sentinel)
  have ph: "pos_ok ?h" using spaced_pos_ok(1) [OF sp', of ?h] hin by blast
  have hl: "?h \<in> link_addrs S fl" using hin unfolding link_addrs_def by auto
  have hx: "?h \<noteq> x" "?h \<noteq> x + 8" using hl xn by auto
  have 1: "links ?m1 S c 0 fl" using links_wr_other [OF px(2) xn(2) ok] lk by simp
  have 2: "links ?m2 S c (W x) fl" using links_set_prev [OF 1 sp'] .
  have 3: "links ?m3 S c (W x) fl" using links_wr_other [OF px(1) xn(1) ok] 2 by simp
  have "rd ?m3 (x + 8) = rd ?m2 (x + 8)" using px by (simp add: rd_wr_other)
  also have "\<dots> = rd ?m1 (x + 8)" using px ph hx by (simp add: rd_wr_other)
  also have "\<dots> = c" by (rule rd_wr_same)
  finally have n: "rd ?m3 (x + 8) = c" .
  show ?thesis using 3 n by (simp add: rd_wr_same)
qed

text \<open>What the links around a member of the chain hold.\<close>

lemma links_member:
  assumes "links m S c p (xs @ x # ys)"
  shows "rd m x = (if xs = [] then p else W (last xs))"
    and "rd m (x + 8) = W (hd (ys @ [S]))"
    and "links m S (rd m (x + 8)) (W x) ys"
  using assms
proof (induction xs arbitrary: c p)
  case Nil
  { case 1 then show ?case by simp }
  { case 2 then show ?case using links_head [of m S "rd m (x + 8)" "W x" ys] by simp }
  { case 3 then show ?case by simp }
next
  case (Cons a xs)
  { case 1 then show ?case using Cons.IH(1) [of "rd m (a + 8)" "W a"] by simp }
  { case 2 then show ?case using Cons.IH(2) [of "rd m (a + 8)" "W a"] by simp }
  { case 3 then show ?case using Cons.IH(3) [of "rd m (a + 8)" "W a"] by simp }
qed

text \<open>Unlinking a member that has a predecessor in the chain.\<close>

lemma links_remove_mid:
  assumes lk: "links m S c p (xs @ x # ys)" and ne: "xs \<noteq> []" and sp: "spaced (S # xs @ x # ys)"
  shows "links (wr (wr m (last xs + 8) (W (hd (ys @ [S])))) (hd (ys @ [S])) (W (last xs)))
           S c p (xs @ ys)"
  using lk ne sp
proof (induction xs arbitrary: c p)
  case Nil
  then show ?case by simp
next
  case (Cons a xs)
  let ?n = "hd (ys @ [S])"
  show ?case
  proof (cases "xs = []")
    case True
    have sp1: "spaced (S # a # x # ys)" using Cons.prems(3) True by simp
    have spy: "spaced (S # ys)"
      by (rule spaced_subset [OF sp1]) (use spaced_distinct [OF sp1] in auto)
    have d: "distinct (S # a # x # ys)" using spaced_distinct [OF sp1] .
    have l: "c = W a" "rd m a = p" "rd m (a + 8) = W x" "rd m x = W a"
        "links m S (rd m (x + 8)) (W x) ys"
      using Cons.prems(1) True by simp_all
    have nx: "rd m (x + 8) = W ?n" using links_head [OF l(5)] .
    have pa: "pos_ok a" "pos_ok (a + 8)" using spaced_pos_ok [OF sp1, of a] by auto
    have nin: "?n \<in> set (S # ys)" by (rule hd_app_sentinel)
    have pn: "pos_ok ?n" using spaced_pos_ok(1) [OF spy nin] .
    have an: "a \<notin> link_addrs S ys" "a + 8 \<notin> link_addrs S ys"
      by (rule not_in_link_addrs [OF sp1]; use d in auto)+
    have nl: "?n \<in> link_addrs S ys" using nin unfolding link_addrs_def by auto
    have na: "?n \<noteq> a" "?n \<noteq> a + 8" using nl an by auto
    let ?m1 = "wr m (a + 8) (W ?n)"
    let ?m2 = "wr ?m1 ?n (W a)"
    have ok: "\<forall>j\<in>link_addrs S ys. pos_ok j" using link_addrs_ok [OF spy] .
    have 1: "links ?m1 S (W ?n) (W x) ys"
      using links_wr_other [OF pa(2) an(2) ok] l(5) nx by simp
    have 2: "links ?m2 S (W ?n) (W a) ys" using links_set_prev [OF 1 spy] .
    have ra: "rd ?m2 a = p"
      using pa pn na l(2) by (simp add: rd_wr_other)
    have "rd ?m2 (a + 8) = rd ?m1 (a + 8)" using pa pn na by (simp add: rd_wr_other)
    then have ra8: "rd ?m2 (a + 8) = W ?n" by (simp add: rd_wr_same)
    show ?thesis using True l(1) ra ra8 2 by simp
  next
    case False
    have sp1: "spaced (S # xs @ x # ys)" using spaced_drop2 [of S a] Cons.prems(3) by simp
    have d: "distinct (S # a # xs @ x # ys)" using spaced_distinct [OF Cons.prems(3)] by simp
    have l: "c = W a" "rd m a = p" "links m S (rd m (a + 8)) (W a) (xs @ x # ys)"
      using Cons.prems(1) by simp_all
    let ?m1 = "wr m (last xs + 8) (W ?n)"
    let ?m2 = "wr ?m1 ?n (W (last xs))"
    have ih: "links ?m2 S (rd m (a + 8)) (W a) (xs @ ys)"
      using Cons.IH [OF l(3) False sp1] .
    have pa: "pos_ok a" "pos_ok (a + 8)" using spaced_pos_ok [OF Cons.prems(3), of a] by auto
    have lin: "last xs \<in> set xs" using False by simp
    have nin: "?n \<in> set (S # ys)" by (rule hd_app_sentinel)
    have pl: "pos_ok (last xs + 8)"
      using spaced_pos_ok(2) [OF sp1, of "last xs"] lin by auto
    have pn: "pos_ok ?n" using spaced_pos_ok(1) [OF sp1, of ?n] nin by auto
    have an: "a \<notin> link_addrs S (xs @ x # ys)" "a + 8 \<notin> link_addrs S (xs @ x # ys)"
      by (rule not_in_link_addrs [OF Cons.prems(3)]; use d in auto)+
    have "last xs + 8 \<in> link_addrs S (xs @ x # ys)" "?n \<in> link_addrs S (xs @ x # ys)"
      using lin nin unfolding link_addrs_def by auto
    then have ne: "last xs + 8 \<noteq> a" "last xs + 8 \<noteq> a + 8" "?n \<noteq> a" "?n \<noteq> a + 8"
      using an by auto
    have ra: "rd ?m2 a = p" using pa pl pn ne l(2) by (simp add: rd_wr_other)
    have ra8: "rd ?m2 (a + 8) = rd m (a + 8)" using pa pl pn ne by (simp add: rd_wr_other)
    show ?thesis using False l(1) ra ra8 ih by simp
  qed
qed

text \<open>Unlinking the head of the chain.\<close>

lemma links_remove_head:
  assumes lk: "links m S c p (x # ys)" and sp: "spaced (S # x # ys)"
  shows "links (wr m (hd (ys @ [S])) p) S (rd m (x + 8)) p ys"
proof -
  have "links m S (rd m (x + 8)) (W x) ys" using lk by simp
  then show ?thesis using links_set_prev [OF _ spaced_drop2 [OF sp]] by blast
qed

lemma GET_W: "GET s (W k) = rd (mem s) k"
  by (simp add: GET_def rd_def)

lemma mem_PUT_W: "mem (PUT s (W k) v) = wr (mem s) k v"
  by (simp add: PUT_def wr_def)

lemma remove_block_spec:
  assumes lk: "links (mem s) S (free_listp s) 0 (xs @ x # ys)"
    and sp: "spaced (S # xs @ x # ys)"
  shows "links (mem (remove_block s (W x))) S (free_listp (remove_block s (W x))) 0 (xs @ ys)"
    and "\<forall>j. pos_ok j \<and> j \<notin> link_addrs S (xs @ x # ys)
           \<longrightarrow> rd (mem (remove_block s (W x))) j = rd (mem s) j"
proof -
  let ?m = "mem s"
  let ?n = "hd (ys @ [S])"
  have mem: "rd ?m x = (if xs = [] then 0 else W (last xs))" "rd ?m (x + 8) = W ?n"
    using links_member [OF lk] by simp_all
  have nin: "?n \<in> set (S # ys)" by (rule hd_app_sentinel)
  then have nin': "?n \<in> set (S # xs @ x # ys)" by auto
  have pn: "pos_ok ?n" using spaced_pos_ok(1) [OF sp nin'] .
  have nl: "?n \<in> link_addrs S (xs @ x # ys)" using nin unfolding link_addrs_def by auto
  have px: "pos_ok x" "pos_ok (x + 8)" using spaced_pos_ok [OF sp, of x] by auto
  have nlt: "?n < 4294967296" using spaced_lt(1) [OF sp nin'] .
  have "links (mem (remove_block s (W x))) S (free_listp (remove_block s (W x))) 0 (xs @ ys)
    \<and> (\<forall>j. pos_ok j \<and> j \<notin> link_addrs S (xs @ x # ys)
           \<longrightarrow> rd (mem (remove_block s (W x))) j = rd (mem s) j)"
  proof (cases "xs = []")
    case True
    have P: "PREV_FREEP s (W x) = 0" "NEXT_FREEP s (W x) = W ?n"
      using mem True by (simp_all add: PREV_FREEP_def NEXT_FREEP_def GET_W DSIZE_def W_plus_num)
    have r: "remove_block s (W x) = PUT (s\<lparr>free_listp := W ?n\<rparr>) (W ?n) 0"
      using P by (simp add: remove_block_def Let_def PREV_FREEP_def NEXT_FREEP_def GET_def)
    have m': "mem (remove_block s (W x)) = wr ?m ?n 0" unfolding r by (simp add: mem_PUT_W)
    have f': "free_listp (remove_block s (W x)) = W ?n" unfolding r by simp
    have "links (wr ?m ?n 0) S (rd ?m (x + 8)) 0 ys"
      using links_remove_head [of ?m S "free_listp s" 0 x ys] lk sp True by simp
    then have A: "links (mem (remove_block s (W x))) S (free_listp (remove_block s (W x))) 0 (xs @ ys)"
      unfolding m' f' using True mem(2) by simp
    have B: "\<forall>j. pos_ok j \<and> j \<notin> link_addrs S (xs @ x # ys)
           \<longrightarrow> rd (mem (remove_block s (W x))) j = rd (mem s) j"
    proof (intro allI impI)
      fix j assume a: "pos_ok j \<and> j \<notin> link_addrs S (xs @ x # ys)"
      then have "j \<noteq> ?n" using nl by blast
      then show "rd (mem (remove_block s (W x))) j = rd (mem s) j"
        unfolding m' using a pn by (simp add: rd_wr_other)
    qed
    show ?thesis using A B by blast
  next
    case False
    let ?l = "last xs"
    have lin: "?l \<in> set (S # xs @ x # ys)" using False by simp
    have ll: "?l < 4294967296" "0 < ?l" using spaced_lt [OF sp lin] by auto
    have pl: "pos_ok ?l" "pos_ok (?l + 8)" using spaced_pos_ok [OF sp lin] by auto
    have l8: "?l + 8 \<in> link_addrs S (xs @ x # ys)"
      using False unfolding link_addrs_def by auto
    have d: "distinct (S # xs @ x # ys)" using spaced_distinct [OF sp] .
    have lx: "?l \<noteq> x" using d False by auto
    have "far ?l x" using spaced_far [OF sp lin _ lx] by simp
    then have ne: "?l + 8 \<noteq> x" "?l + 8 \<noteq> x + 8" using lx by (auto simp: far_def)
    have Wl: "W ?l \<noteq> 0" using ll by (simp add: W_eq_0)
    have P: "PREV_FREEP s (W x) = W ?l" "NEXT_FREEP s (W x) = W ?n"
      using mem False by (simp_all add: PREV_FREEP_def NEXT_FREEP_def GET_W DSIZE_def W_plus_num)
    let ?s1 = "PUT s (W (?l + 8)) (W ?n)"
    have m1: "mem ?s1 = wr ?m (?l + 8) (W ?n)" by (simp add: mem_PUT_W)
    have P1: "PREV_FREEP ?s1 (W x) = W ?l" "NEXT_FREEP ?s1 (W x) = W ?n"
      using mem False px pl ne
      by (simp_all add: PREV_FREEP_def NEXT_FREEP_def GET_W DSIZE_def W_plus_num m1 rd_wr_other)
    have r: "remove_block s (W x) = PUT ?s1 (W ?n) (W ?l)"
      using P P1 Wl by (simp add: remove_block_def Let_def DSIZE_def W_plus_num)
    have m': "mem (remove_block s (W x)) = wr (wr ?m (?l + 8) (W ?n)) ?n (W ?l)"
      unfolding r by (simp add: mem_PUT_W)
    have f': "free_listp (remove_block s (W x)) = free_listp s" unfolding r by simp
    have A: "links (mem (remove_block s (W x))) S (free_listp (remove_block s (W x))) 0 (xs @ ys)"
      unfolding m' f' using links_remove_mid [OF lk False sp] .
    have B: "\<forall>j. pos_ok j \<and> j \<notin> link_addrs S (xs @ x # ys)
           \<longrightarrow> rd (mem (remove_block s (W x))) j = rd (mem s) j"
    proof (intro allI impI)
      fix j assume a: "pos_ok j \<and> j \<notin> link_addrs S (xs @ x # ys)"
      then have "j \<noteq> ?n" "j \<noteq> ?l + 8" using nl l8 by blast+
      then show "rd (mem (remove_block s (W x))) j = rd (mem s) j"
        unfolding m' using a pn pl by (simp add: rd_wr_other)
    qed
    show ?thesis using A B by blast
  qed
  then show "links (mem (remove_block s (W x))) S (free_listp (remove_block s (W x))) 0 (xs @ ys)"
    and "\<forall>j. pos_ok j \<and> j \<notin> link_addrs S (xs @ x # ys)
           \<longrightarrow> rd (mem (remove_block s (W x))) j = rd (mem s) j"
    by blast+
qed

lemma insert_at_front_spec:
  assumes lk: "links (mem s) S (free_listp s) 0 fl"
    and sp: "spaced (S # x # fl)"
  shows "links (mem (insert_at_front s (W x))) S (W x) 0 (x # fl)"
    and "\<forall>j. pos_ok j \<and> j \<notin> link_addrs S (x # fl)
           \<longrightarrow> rd (mem (insert_at_front s (W x))) j = rd (mem s) j"
proof -
  let ?h = "hd (fl @ [S])"
  have c: "free_listp s = W ?h" using links_head [OF lk] .
  have m': "mem (insert_at_front s (W x)) = wr (wr (wr (mem s) (x + 8) (W ?h)) ?h (W x)) x 0"
    by (simp add: insert_at_front_def Let_def DSIZE_def W_plus_num c mem_PUT_W)
  show "links (mem (insert_at_front s (W x))) S (W x) 0 (x # fl)"
    unfolding m' using links_insert [OF lk sp] c by simp
  have hin: "?h \<in> set (S # fl)" by (rule hd_app_sentinel)
  then have hin': "?h \<in> set (S # x # fl)" by auto
  have ph: "pos_ok ?h" using spaced_pos_ok(1) [OF sp hin'] .
  have px: "pos_ok x" "pos_ok (x + 8)" using spaced_pos_ok [OF sp, of x] by auto
  have "?h \<in> link_addrs S (x # fl)" "x \<in> link_addrs S (x # fl)" "x + 8 \<in> link_addrs S (x # fl)"
    using hin unfolding link_addrs_def by auto
  then have "j \<noteq> ?h \<and> j \<noteq> x \<and> j \<noteq> x + 8" if "j \<notin> link_addrs S (x # fl)" for j
    using that by blast
  then show "\<forall>j. pos_ok j \<and> j \<notin> link_addrs S (x # fl)
           \<longrightarrow> rd (mem (insert_at_front s (W x))) j = rd (mem s) j"
    unfolding m' using ph px by (simp add: rd_wr_other)
qed

section \<open>Blocks and boundary tags\<close>

text \<open>
  The heap between prologue and epilogue as a list of blocks, each a size and an allocated
  flag. \<open>tags\<close> says that memory holds the matching header and footer of every block of the
  list laid out from position \<open>p\<close> (a block pointer: its header is the word before);
  \<open>blk_pos\<close>, \<open>free_pos\<close> and \<open>alloc_pos\<close> are the block pointers of all, of the
  free and of the allocated blocks; \<open>no_adj\<close> says that no two neighbours are both free
  (\<open>pa\<close> is the allocated flag of the block before the list).
\<close>

type_synonym blk = "nat \<times> bool"

definition total_size :: "blk list \<Rightarrow> nat" where
  "total_size bs = sum_list (map fst bs)"

definition blk_ok :: "blk \<Rightarrow> bool" where
  "blk_ok b \<longleftrightarrow> 24 \<le> fst b \<and> 8 dvd fst b"

definition shape :: "blk list \<Rightarrow> bool" where
  "shape bs \<longleftrightarrow> (\<forall>b\<in>set bs. blk_ok b)"

fun tags :: "memory \<Rightarrow> nat \<Rightarrow> blk list \<Rightarrow> bool" where
  "tags m p [] = True"
| "tags m p (b # bs) = (rd m (p - 4) = tag (fst b) (snd b) \<and> rd m (p + fst b - 8) = tag (fst b) (snd b)
      \<and> tags m (p + fst b) bs)"

fun tag_addrs :: "nat \<Rightarrow> blk list \<Rightarrow> nat set" where
  "tag_addrs p [] = {}"
| "tag_addrs p (b # bs) = {p - 4, p + fst b - 8} \<union> tag_addrs (p + fst b) bs"

fun blk_pos :: "nat \<Rightarrow> blk list \<Rightarrow> nat list" where
  "blk_pos p [] = []"
| "blk_pos p (b # bs) = p # blk_pos (p + fst b) bs"

fun free_pos :: "nat \<Rightarrow> blk list \<Rightarrow> nat list" where
  "free_pos p [] = []"
| "free_pos p (b # bs) = (if snd b then [] else [p]) @ free_pos (p + fst b) bs"

fun alloc_pos :: "nat \<Rightarrow> blk list \<Rightarrow> nat list" where
  "alloc_pos p [] = []"
| "alloc_pos p (b # bs) = (if snd b then [p] else []) @ alloc_pos (p + fst b) bs"

fun no_adj :: "bool \<Rightarrow> blk list \<Rightarrow> bool" where
  "no_adj pa [] = True"
| "no_adj pa (b # bs) = ((pa \<or> snd b) \<and> no_adj (snd b) bs)"

lemma total_simps [simp]:
  "total_size [] = 0" "total_size (b # bs) = fst b + total_size bs" "total_size (xs @ ys) = total_size xs + total_size ys"
  by (simp_all add: total_size_def)

lemma shape_simps [simp]:
  "shape []" "shape (b # bs) \<longleftrightarrow> blk_ok b \<and> shape bs" "shape (xs @ ys) \<longleftrightarrow> shape xs \<and> shape ys"
  by (auto simp: shape_def)

lemma blk_okD: "blk_ok (n, a) \<Longrightarrow> 24 \<le> n \<and> 8 dvd n"
  by (simp add: blk_ok_def)

lemma tags_append: "tags m p (xs @ ys) = (tags m p xs \<and> tags m (p + total_size xs) ys)"
  by (induction xs arbitrary: p) (auto simp: add.assoc)

lemma tag_addrs_append: "tag_addrs p (xs @ ys) = tag_addrs p xs \<union> tag_addrs (p + total_size xs) ys"
  by (induction xs arbitrary: p) (auto simp: add.assoc)

lemma blk_pos_append: "blk_pos p (xs @ ys) = blk_pos p xs @ blk_pos (p + total_size xs) ys"
  by (induction xs arbitrary: p) (auto simp: add.assoc)

lemma free_pos_append: "free_pos p (xs @ ys) = free_pos p xs @ free_pos (p + total_size xs) ys"
  by (induction xs arbitrary: p) (auto simp: add.assoc)

lemma alloc_pos_append: "alloc_pos p (xs @ ys) = alloc_pos p xs @ alloc_pos (p + total_size xs) ys"
  by (induction xs arbitrary: p) (auto simp: add.assoc)

lemma free_pos_sub: "set (free_pos p bs) \<subseteq> set (blk_pos p bs)"
  by (induction bs arbitrary: p) auto

lemma alloc_pos_sub: "set (alloc_pos p bs) \<subseteq> set (blk_pos p bs)"
  by (induction bs arbitrary: p) auto

lemma blk_pos_bounds:
  assumes "shape bs" "y \<in> set (blk_pos p bs)"
  shows "p \<le> y \<and> y + 24 \<le> p + total_size bs"
  using assms
proof (induction bs arbitrary: p)
  case Nil
  then show ?case by simp
next
  case (Cons b bs)
  have b: "24 \<le> fst b" using Cons.prems(1) by (simp add: blk_ok_def)
  show ?case
  proof (cases "y = p")
    case True
    then show ?thesis using b by simp
  next
    case False
    then have "y \<in> set (blk_pos (p + fst b) bs)" using Cons.prems(2) by simp
    then have "p + fst b \<le> y \<and> y + 24 \<le> p + fst b + total_size bs"
      using Cons.IH [of "p + fst b"] Cons.prems(1) by simp
    then show ?thesis by simp
  qed
qed

lemma blk_pos_dvd:
  assumes "shape bs" "8 dvd p" "y \<in> set (blk_pos p bs)"
  shows "8 dvd y"
  using assms
proof (induction bs arbitrary: p)
  case Nil
  then show ?case by simp
next
  case (Cons b bs)
  have "8 dvd fst b" using Cons.prems(1) by (simp add: blk_ok_def)
  then have "8 dvd p + fst b" using Cons.prems(2) by simp
  then show ?case using Cons.IH [of "p + fst b"] Cons.prems by auto
qed

lemma blk_pos_distinct:
  assumes "shape bs"
  shows "distinct (blk_pos p bs)"
  using assms
proof (induction bs arbitrary: p)
  case Nil
  then show ?case by simp
next
  case (Cons b bs)
  have b: "24 \<le> fst b" using Cons.prems by (simp add: blk_ok_def)
  have "p \<notin> set (blk_pos (p + fst b) bs)"
  proof
    assume "p \<in> set (blk_pos (p + fst b) bs)"
    then have "p + fst b \<le> p" using blk_pos_bounds [of bs p "p + fst b"] Cons.prems by simp
    then show False using b by simp
  qed
  then show ?case using Cons.IH [of "p + fst b"] Cons.prems by simp
qed

lemma blk_pos_far:
  assumes "shape bs" "y \<in> set (blk_pos p bs)" "z \<in> set (blk_pos p bs)" "y \<noteq> z"
  shows "far y z"
  using assms
proof (induction bs arbitrary: p)
  case Nil
  then show ?case by simp
next
  case (Cons b bs)
  have b: "24 \<le> fst b" using Cons.prems(1) by (simp add: blk_ok_def)
  have sh: "shape bs" using Cons.prems(1) by simp
  have rest: "p + fst b \<le> w" if "w \<in> set (blk_pos (p + fst b) bs)" for w
    using blk_pos_bounds [OF sh that] by simp
  consider "y = p" "z \<in> set (blk_pos (p + fst b) bs)"
    | "z = p" "y \<in> set (blk_pos (p + fst b) bs)"
    | "y \<in> set (blk_pos (p + fst b) bs)" "z \<in> set (blk_pos (p + fst b) bs)"
    using Cons.prems(2,3,4) by auto
  then show ?case
  proof cases
    case 1 then show ?thesis using rest [of z] b by (simp add: far_def)
  next
    case 2 then show ?thesis using rest [of y] b by (simp add: far_def)
  next
    case 3 show ?thesis using Cons.IH [OF sh 3 Cons.prems(4)] .
  qed
qed

lemma tag_addrs_bounds:
  assumes "shape bs" "j \<in> tag_addrs p bs" "4 \<le> p"
  shows "p \<le> j + 4 \<and> j + 8 \<le> p + total_size bs"
  using assms
proof (induction bs arbitrary: p)
  case Nil
  then show ?case by simp
next
  case (Cons b bs)
  have b: "24 \<le> fst b" using Cons.prems(1) by (simp add: blk_ok_def)
  have sh: "shape bs" using Cons.prems(1) by simp
  consider "j = p - 4" | "j = p + fst b - 8" | "j \<in> tag_addrs (p + fst b) bs"
    using Cons.prems(2) by auto
  then show ?case
  proof cases
    case 1 then show ?thesis using b Cons.prems(3) by simp
  next
    case 2 then show ?thesis using b Cons.prems(3) by simp
  next
    case 3
    have "p + fst b \<le> j + 4 \<and> j + 8 \<le> p + fst b + total_size bs"
      using Cons.IH [OF sh 3] Cons.prems(3) by simp
    then show ?thesis by simp
  qed
qed

lemma tag_addrs_pos_ok:
  assumes "shape bs" "8 dvd p" "8 \<le> p" "p + total_size bs \<le> 4294967296" "j \<in> tag_addrs p bs"
  shows "pos_ok j"
  using assms
proof (induction bs arbitrary: p)
  case Nil
  then show ?case by simp
next
  case (Cons b bs)
  have b: "24 \<le> fst b" "8 dvd fst b" using Cons.prems(1) by (simp_all add: blk_ok_def)
  have sh: "shape bs" using Cons.prems(1) by simp
  from Cons.prems(2) obtain q where q: "p = 8 * q" by (auto elim: dvdE)
  from b(2) obtain r where r: "fst b = 8 * r" by (auto elim: dvdE)
  have q2: "1 \<le> q" "3 \<le> r" using Cons.prems(3) b(1) q r by simp_all
  consider "j = p - 4" | "j = p + fst b - 8" | "j \<in> tag_addrs (p + fst b) bs"
    using Cons.prems(5) by auto
  then show ?case
  proof cases
    case 1
    have "j = 4 * (2 * q - 1)" using 1 q q2 by simp
    then have "4 dvd j" by (metis dvd_triv_left)
    moreover have "j + 4 \<le> 4294967296" using 1 Cons.prems(3,4) by simp
    ultimately show ?thesis by (simp add: pos_ok_def)
  next
    case 2
    have "j = 4 * (2 * q + 2 * r - 2)" using 2 q r q2 by simp
    then have "4 dvd j" by (metis dvd_triv_left)
    moreover have "j + 4 \<le> 4294967296" using 2 Cons.prems(3,4) b(1) by simp
    ultimately show ?thesis by (simp add: pos_ok_def)
  next
    case 3
    have "8 dvd p + fst b" using Cons.prems(2) b(2) by simp
    moreover have "8 \<le> p + fst b" using Cons.prems(3) by simp
    moreover have "p + fst b + total_size bs \<le> 4294967296" using Cons.prems(4) by (simp add: add.assoc)
    ultimately show ?thesis using Cons.IH [OF sh _ _ _ 3] by blast
  qed
qed

lemma tags_wr_other:
  assumes "pos_ok k" "k \<notin> tag_addrs p bs" "\<forall>j\<in>tag_addrs p bs. pos_ok j"
  shows "tags (wr m k v) p bs = tags m p bs"
  using assms
proof (induction bs arbitrary: p)
  case Nil
  then show ?case by simp
next
  case (Cons b bs)
  have "pos_ok (p - 4)" "p - 4 \<noteq> k" "pos_ok (p + fst b - 8)" "p + fst b - 8 \<noteq> k"
    using Cons.prems by auto
  then have r: "rd (wr m k v) (p - 4) = rd m (p - 4)"
      "rd (wr m k v) (p + fst b - 8) = rd m (p + fst b - 8)"
    using Cons.prems(1) by (simp_all add: rd_wr_other)
  have "tags (wr m k v) (p + fst b) bs = tags m (p + fst b) bs"
    using Cons.IH [of "p + fst b"] Cons.prems by simp
  then show ?case by (simp add: r)
qed

section \<open>Tilings with a hole\<close>

text \<open>
  The fixed part of the heap. \<^verbatim>\<open>mm_init\<close> obtains 48 bytes and puts the prologue header
  at offset 4 and the free-list sentinel (the prologue's block pointer) at offset 8; the
  first block obtained later starts at offset 48, so the word at offset 40 is read as the
  footer in front of the first block and has to carry size zero.
\<close>

definition lo_of :: "state \<Rightarrow> nat" where
  "lo_of s = unat (mem_start_brk s)"

definition first_pos :: "state \<Rightarrow> nat" where
  "first_pos s = lo_of s + 48"

definition sentinel :: "state \<Rightarrow> nat" where
  "sentinel s = lo_of s + 8"

definition brk_of :: "state \<Rightarrow> nat" where
  "brk_of s = unat (mem_brk s)"

definition base_ok :: "state \<Rightarrow> bool" where
  "base_ok s \<longleftrightarrow> 0 < lo_of s \<and> 8 dvd lo_of s \<and> heap_listp s = mem_start_brk s
     \<and> rd (mem s) (lo_of s + 4) = 25 \<and> rd (mem s) (lo_of s + 40) AND NOT 7 = 0"

text \<open>
  A tiling with a hole: the blocks \<open>xs\<close> from the first block position, then
  \<open>N\<close> bytes about which nothing is said, then the blocks \<open>ys\<close> up to the break, with the
  epilogue header in the last word.
\<close>

definition seg :: "state \<Rightarrow> blk list \<Rightarrow> nat \<Rightarrow> blk list \<Rightarrow> bool" where
  "seg s xs N ys \<longleftrightarrow> shape xs \<and> shape ys \<and> 8 dvd N
     \<and> first_pos s + total_size xs + N + total_size ys = brk_of s
     \<and> tags (mem s) (first_pos s) xs \<and> tags (mem s) (first_pos s + total_size xs + N) ys
     \<and> rd (mem s) (brk_of s - 4) = 1"

definition tiled :: "state \<Rightarrow> blk list \<Rightarrow> bool" where
  "tiled s bs \<longleftrightarrow> seg s bs 0 []"

definition lpos :: "state \<Rightarrow> blk list \<Rightarrow> nat \<Rightarrow> blk list \<Rightarrow> nat \<Rightarrow> bool" where
  "lpos s xs N ys y \<longleftrightarrow> y \<in> set (blk_pos (first_pos s) xs)
     \<or> y \<in> set (blk_pos (first_pos s + total_size xs + N) ys)
     \<or> (8 dvd y \<and> first_pos s + total_size xs \<le> y \<and> y + 24 \<le> first_pos s + total_size xs + N)"

text \<open>
  Two states that differ at most in memory and in the free-list head.
\<close>

definition same_fields :: "state \<Rightarrow> state \<Rightarrow> bool" where
  "same_fields s s' \<longleftrightarrow> mem_start_brk s' = mem_start_brk s \<and> mem_brk s' = mem_brk s
     \<and> mem_max_addr s' = mem_max_addr s \<and> heap_listp s' = heap_listp s"

lemma same_fields_pos [simp]:
  "same_fields s s' \<Longrightarrow> lo_of s' = lo_of s"
  "same_fields s s' \<Longrightarrow> first_pos s' = first_pos s"
  "same_fields s s' \<Longrightarrow> sentinel s' = sentinel s"
  "same_fields s s' \<Longrightarrow> brk_of s' = brk_of s"
  by (simp_all add: same_fields_def lo_of_def first_pos_def sentinel_def brk_of_def)

lemma same_fields_refl [simp]: "same_fields s s"
  by (simp add: same_fields_def)

lemma same_fields_trans: "same_fields s s' \<Longrightarrow> same_fields s' s'' \<Longrightarrow> same_fields s s''"
  by (simp add: same_fields_def)

lemma same_fields_ops [simp]:
  "same_fields s (PUT s a v)" "same_fields s (remove_block s b)" "same_fields s (insert_at_front s b)"
  "same_fields s (s\<lparr>mem := m\<rparr>)" "same_fields s (s\<lparr>free_listp := c\<rparr>)"
  by (simp_all add: same_fields_def)

lemma brk_lt: "brk_of s < 4294967296"
  unfolding brk_of_def by (rule lt32)

lemma total_dvd: "shape bs \<Longrightarrow> 8 dvd total_size bs"
  by (induction bs) (auto simp: blk_ok_def)

lemma blk_pos_not_tag:
  assumes "shape bs" "4 \<le> p" "y \<in> set (blk_pos p bs)"
  shows "y \<notin> tag_addrs p bs" "y + 8 \<notin> tag_addrs p bs"
proof -
  have "y \<notin> tag_addrs p bs \<and> y + 8 \<notin> tag_addrs p bs"
    using assms
  proof (induction bs arbitrary: p)
    case Nil
    then show ?case by simp
  next
    case (Cons b bs)
    have b: "24 \<le> fst b" using Cons.prems(1) by (simp add: blk_ok_def)
    have sh: "shape bs" using Cons.prems(1) by simp
    have tb: "p + fst b \<le> j + 4" if "j \<in> tag_addrs (p + fst b) bs" for j
      using tag_addrs_bounds [OF sh that] Cons.prems(2) by simp
    show ?case
    proof (cases "y = p")
      case True
      have "y \<notin> tag_addrs (p + fst b) bs" "y + 8 \<notin> tag_addrs (p + fst b) bs"
        using tb [of y] tb [of "y + 8"] True b by auto
      then show ?thesis using True b Cons.prems(2) by auto
    next
      case False
      then have y: "y \<in> set (blk_pos (p + fst b) bs)" using Cons.prems(3) by simp
      have yb: "p + fst b \<le> y" using blk_pos_bounds [OF sh y] by simp
      have "y \<notin> tag_addrs (p + fst b) bs \<and> y + 8 \<notin> tag_addrs (p + fst b) bs"
        using Cons.IH [OF sh _ y] Cons.prems(2) by simp
      then show ?thesis using yb b Cons.prems(2) by auto
    qed
  qed
  then show "y \<notin> tag_addrs p bs" "y + 8 \<notin> tag_addrs p bs" by blast+
qed

lemma tags_frame:
  assumes "\<forall>j\<in>tag_addrs p bs. rd m' j = rd m j"
  shows "tags m' p bs = tags m p bs"
  using assms by (induction bs arbitrary: p) auto

lemma link_addrs_cases:
  assumes "k \<in> link_addrs S fl"
  shows "k = S \<or> (\<exists>y\<in>set fl. k = y \<or> k = y + 8)"
  using assms unfolding link_addrs_def by blast

text \<open>Writes to link slots leave the boundary tags and the fixed words alone.\<close>

lemma seg_frame:
  assumes b: "base_ok s" and sg: "seg s xs N ys"
    and fl: "\<forall>y\<in>set fl. lpos s xs N ys y"
    and fr: "\<forall>j. pos_ok j \<and> j \<notin> link_addrs (sentinel s) fl \<longrightarrow> rd (mem s') j = rd (mem s) j"
    and sf: "same_fields s s'"
  shows "base_ok s'" "seg s' xs N ys"
proof -
  let ?p = "first_pos s"
  let ?q = "first_pos s + total_size xs + N"
  let ?S = "sentinel s"
  have lo: "0 < lo_of s" "8 dvd lo_of s" using b by (simp_all add: base_ok_def)
  have sh: "shape xs" "shape ys" "8 dvd N" and tot: "?p + total_size xs + N + total_size ys = brk_of s"
    using sg by (simp_all add: seg_def)
  have p8: "8 dvd ?p" "8 \<le> ?p" "4 \<le> ?p" using lo by (simp_all add: first_pos_def)
  have txs: "8 dvd total_size xs" using sh(1) by (rule total_dvd)
  have q8: "8 dvd ?q" "8 \<le> ?q" "4 \<le> ?q" using p8 txs sh(3) by simp_all
  have bl: "brk_of s < 4294967296" by (rule brk_lt)
  have S: "?S + 40 = ?p" by (simp add: sentinel_def first_pos_def)
  have okx: "pos_ok j" if "j \<in> tag_addrs ?p xs" for j
    by (rule tag_addrs_pos_ok [OF sh(1) p8(1,2) _ that]) (use tot bl in linarith)
  have oky: "pos_ok j" if "j \<in> tag_addrs ?q ys" for j
    by (rule tag_addrs_pos_ok [OF sh(2) q8(1,2) _ that]) (use tot bl in linarith)
  have ybounds: "?p \<le> y \<and> y + 24 \<le> brk_of s" if "y \<in> set fl" for y
  proof -
    have "lpos s xs N ys y" using fl that by blast
    then consider "y \<in> set (blk_pos ?p xs)" | "y \<in> set (blk_pos ?q ys)"
      | "?p + total_size xs \<le> y \<and> y + 24 \<le> ?q"
      unfolding lpos_def by blast
    then show ?thesis
    proof cases
      case 1 then show ?thesis using blk_pos_bounds [OF sh(1) 1] tot by linarith
    next
      case 2 then show ?thesis using blk_pos_bounds [OF sh(2) 2] tot by linarith
    next
      case 3 then show ?thesis using tot by linarith
    qed
  qed
  have fa: "y \<in> set (blk_pos ?p xs) \<or> ?p + total_size xs \<le> y" if "y \<in> set fl" for y
  proof -
    have "lpos s xs N ys y" using fl that by blast
    then consider "y \<in> set (blk_pos ?p xs)" | "y \<in> set (blk_pos ?q ys)"
      | "?p + total_size xs \<le> y \<and> y + 24 \<le> ?q"
      unfolding lpos_def by blast
    then show ?thesis
    proof cases
      case 1 then show ?thesis by simp
    next
      case 2 then show ?thesis using blk_pos_bounds [OF sh(2) 2] by simp
    next
      case 3 then show ?thesis by simp
    qed
  qed
  have fb: "y \<in> set (blk_pos ?q ys) \<or> y + 24 \<le> ?q" if "y \<in> set fl" for y
  proof -
    have "lpos s xs N ys y" using fl that by blast
    then consider "y \<in> set (blk_pos ?p xs)" | "y \<in> set (blk_pos ?q ys)"
      | "?p + total_size xs \<le> y \<and> y + 24 \<le> ?q"
      unfolding lpos_def by blast
    then show ?thesis
    proof cases
      case 1 then show ?thesis using blk_pos_bounds [OF sh(1) 1] by simp
    next
      case 2 then show ?thesis by simp
    next
      case 3 then show ?thesis by simp
    qed
  qed
  have nx: "j \<notin> link_addrs ?S fl" if j: "j \<in> tag_addrs ?p xs" for j
  proof
    assume "j \<in> link_addrs ?S fl"
    then consider "j = ?S" | y where "y \<in> set fl" "j = y \<or> j = y + 8"
      using link_addrs_cases by blast
    then show False
    proof cases
      case 1 then show ?thesis using tag_addrs_bounds [OF sh(1) j p8(3)] S by simp
    next
      case (2 y)
      have jb: "?p \<le> j + 4 \<and> j + 8 \<le> ?p + total_size xs" using tag_addrs_bounds [OF sh(1) j p8(3)] .
      consider (inside) "y \<in> set (blk_pos ?p xs)" | (beyond) "?p + total_size xs \<le> y"
        using fa [OF 2(1)] by blast
      then show ?thesis
      proof cases
        case inside
        then show ?thesis using blk_pos_not_tag [OF sh(1) p8(3) inside] 2(2) j by blast
      next
        case beyond
        then show ?thesis using jb 2(2) by linarith
      qed
    qed
  qed
  have ny: "j \<notin> link_addrs ?S fl" if j: "j \<in> tag_addrs ?q ys" for j
  proof
    assume "j \<in> link_addrs ?S fl"
    then consider "j = ?S" | y where "y \<in> set fl" "j = y \<or> j = y + 8"
      using link_addrs_cases by blast
    then show False
    proof cases
      case 1 then show ?thesis using tag_addrs_bounds [OF sh(2) j q8(3)] S by simp
    next
      case (2 y)
      have jb: "?q \<le> j + 4 \<and> j + 8 \<le> ?q + total_size ys" using tag_addrs_bounds [OF sh(2) j q8(3)] .
      consider (inside) "y \<in> set (blk_pos ?q ys)" | (before) "y + 24 \<le> ?q"
        using fb [OF 2(1)] by blast
      then show ?thesis
      proof cases
        case inside
        then show ?thesis using blk_pos_not_tag [OF sh(2) q8(3) inside] 2(2) j by blast
      next
        case before
        then show ?thesis using jb 2(2) by linarith
      qed
    qed
  qed
  have fixed: "j \<notin> link_addrs ?S fl"
    if "j = lo_of s + 4 \<or> j = lo_of s + 40 \<or> j = brk_of s - 4" for j
  proof
    have bge: "lo_of s + 48 \<le> brk_of s" using tot by (simp add: first_pos_def)
    have jr: "lo_of s + 4 \<le> j" "j + 4 \<le> brk_of s" "j \<noteq> lo_of s + 8" "j < lo_of s + 48 \<or> j + 4 = brk_of s"
      using that bge by linarith+
    assume "j \<in> link_addrs ?S fl"
    then consider "j = ?S" | y where "y \<in> set fl" "j = y \<or> j = y + 8"
      using link_addrs_cases by blast
    then show False
    proof cases
      case 1 then show ?thesis using jr(3) by (simp add: sentinel_def)
    next
      case (2 y)
      have "?p \<le> y \<and> y + 24 \<le> brk_of s" using ybounds [OF 2(1)] .
      then have "lo_of s + 48 \<le> y" "y + 24 \<le> brk_of s" by (simp_all add: first_pos_def)
      then show ?thesis using jr(4) 2(2) by linarith
    qed
  qed
  have pf: "pos_ok (lo_of s + 4)" "pos_ok (lo_of s + 40)" "pos_ok (brk_of s - 4)"
  proof -
    from lo(2) obtain a where a: "lo_of s = 8 * a" by (auto elim: dvdE)
    have "8 dvd ?q + total_size ys" using q8(1) total_dvd [OF sh(2)] by (rule dvd_add)
    then have "8 dvd brk_of s" using tot by simp
    then obtain c where c: "brk_of s = 8 * c" by (auto elim: dvdE)
    have c1: "1 \<le> c" using c tot p8(2) by simp
    have e: "lo_of s + 4 = 4 * (2 * a + 1)" "lo_of s + 40 = 4 * (2 * a + 10)"
        "brk_of s - 4 = 4 * (2 * c - 1)"
      using a c c1 by simp_all
    have "4 dvd lo_of s + 4" "4 dvd lo_of s + 40" "4 dvd brk_of s - 4"
      unfolding e by (rule dvd_triv_left)+
    moreover have "lo_of s + 48 \<le> brk_of s" using tot by (simp add: first_pos_def)
    ultimately show "pos_ok (lo_of s + 4)" "pos_ok (lo_of s + 40)" "pos_ok (brk_of s - 4)"
      using bl by (simp_all add: pos_ok_def)
  qed
  have frj: "rd (mem s') j = rd (mem s) j" if "pos_ok j" "j \<notin> link_addrs ?S fl" for j
    using fr that by blast
  have r4: "rd (mem s') (lo_of s + 4) = rd (mem s) (lo_of s + 4)"
    by (rule frj [OF pf(1)]) (rule fixed, simp)
  have r40: "rd (mem s') (lo_of s + 40) = rd (mem s) (lo_of s + 40)"
    by (rule frj [OF pf(2)]) (rule fixed, simp)
  have rb: "rd (mem s') (brk_of s - 4) = rd (mem s) (brk_of s - 4)"
    by (rule frj [OF pf(3)]) (rule fixed, simp)
  have l: "lo_of s' = lo_of s" by (rule same_fields_pos(1) [OF sf])
  have b4: "rd (mem s) (lo_of s + 4) = 25" and b5: "rd (mem s) (lo_of s + 40) AND NOT 7 = 0"
    and b3: "heap_listp s = mem_start_brk s"
    using b unfolding base_ok_def by blast+
  have h: "heap_listp s' = mem_start_brk s'"
    using sf b3 unfolding same_fields_def by simp
  show "base_ok s'"
    unfolding base_ok_def l r4 r40 using lo h b4 b5 by blast
  have tx: "tags (mem s') ?p xs = tags (mem s) ?p xs"
    by (rule tags_frame) (use frj okx nx in blast)
  have ty: "tags (mem s') ?q ys = tags (mem s) ?q ys"
    by (rule tags_frame) (use frj oky ny in blast)
  have bk: "brk_of s' = brk_of s" and fp: "first_pos s' = first_pos s"
    using sf by simp_all
  show "seg s' xs N ys"
    unfolding seg_def bk fp tx ty rb using sg unfolding seg_def by blast
qed

text \<open>
  The position of the hole, and the condition on a free list \<open>fl\<close>: its members are
  distinct and each is a block of \<open>xs\<close> or \<open>ys\<close>, or the start of a hole of at least 24
  bytes. \<open>hwf\<close> collects the well-formedness of a heap with a hole.
\<close>

definition hole_pos :: "state \<Rightarrow> blk list \<Rightarrow> nat" where
  "hole_pos s xs = first_pos s + total_size xs"

definition fl_ok :: "state \<Rightarrow> blk list \<Rightarrow> nat \<Rightarrow> blk list \<Rightarrow> nat list \<Rightarrow> bool" where
  "fl_ok s xs N ys fl \<longleftrightarrow> distinct fl \<and> (N = 0 \<or> 24 \<le> N)
     \<and> (\<forall>y\<in>set fl. y \<in> set (blk_pos (first_pos s) xs)
            \<or> y \<in> set (blk_pos (hole_pos s xs + N) ys)
            \<or> (y = hole_pos s xs \<and> 24 \<le> N))"

definition hwf :: "state \<Rightarrow> blk list \<Rightarrow> nat \<Rightarrow> blk list \<Rightarrow> nat list \<Rightarrow> bool" where
  "hwf s xs N ys fl \<longleftrightarrow> base_ok s \<and> seg s xs N ys
     \<and> links (mem s) (sentinel s) (free_listp s) 0 fl \<and> fl_ok s xs N ys fl"

lemma hwfD:
  assumes "hwf s xs N ys fl"
  shows "base_ok s" "seg s xs N ys" "links (mem s) (sentinel s) (free_listp s) 0 fl"
    "fl_ok s xs N ys fl"
  using assms unfolding hwf_def by blast+

lemma hwfI:
  "base_ok s \<Longrightarrow> seg s xs N ys \<Longrightarrow> links (mem s) (sentinel s) (free_listp s) 0 fl
   \<Longrightarrow> fl_ok s xs N ys fl \<Longrightarrow> hwf s xs N ys fl"
  unfolding hwf_def by blast

text \<open>The arithmetic of a tiling with a hole.\<close>

lemma seg_arith:
  assumes b: "base_ok s" and sg: "seg s xs N ys"
  shows "8 dvd first_pos s" "8 dvd hole_pos s xs" "8 dvd N" "8 dvd brk_of s"
    "sentinel s + 40 = first_pos s" "first_pos s \<le> hole_pos s xs"
    "hole_pos s xs + N + total_size ys = brk_of s" "brk_of s < 4294967296"
    "0 < sentinel s" "8 dvd sentinel s" "shape xs" "shape ys" "lo_of s + 48 = first_pos s"
proof -
  have lo: "0 < lo_of s" "8 dvd lo_of s" using b by (simp_all add: base_ok_def)
  have sh: "shape xs" "shape ys" "8 dvd N"
    and tot: "first_pos s + total_size xs + N + total_size ys = brk_of s"
    using sg by (simp_all add: seg_def)
  show "shape xs" "shape ys" "8 dvd N" by (rule sh)+
  show f8: "8 dvd first_pos s" using lo by (simp add: first_pos_def)
  show h8: "8 dvd hole_pos s xs" unfolding hole_pos_def
    by (rule dvd_add [OF f8 total_dvd [OF sh(1)]])
  show "hole_pos s xs + N + total_size ys = brk_of s" using tot by (simp add: hole_pos_def)
  have "8 dvd hole_pos s xs + N" by (rule dvd_add [OF h8 sh(3)])
  then have "8 dvd hole_pos s xs + N + total_size ys" by (rule dvd_add [OF _ total_dvd [OF sh(2)]])
  then show "8 dvd brk_of s" using tot by (simp add: hole_pos_def)
  show "sentinel s + 40 = first_pos s" by (simp add: sentinel_def first_pos_def)
  show "first_pos s \<le> hole_pos s xs" by (simp add: hole_pos_def)
  show "brk_of s < 4294967296" by (rule brk_lt)
  show "0 < sentinel s" by (simp add: sentinel_def)
  show "8 dvd sentinel s" using lo by (simp add: sentinel_def)
  show "lo_of s + 48 = first_pos s" by (simp add: first_pos_def)
qed

lemma dvd8_pos_ok:
  assumes "8 dvd k" "k + 4 \<le> 4294967296"
  shows "pos_ok k"
proof -
  from assms(1) obtain q where "k = 8 * q" by (auto elim: dvdE)
  then have "k = 4 * (2 * q)" by simp
  then have "4 dvd k" by (metis dvd_triv_left)
  then show ?thesis using assms(2) by (simp add: pos_ok_def)
qed

lemma dvd8_pos_ok_m4:
  assumes "8 dvd k" "4 \<le> k" "k \<le> 4294967296"
  shows "pos_ok (k - 4)"
proof -
  from assms(1) obtain q where q: "k = 8 * q" by (auto elim: dvdE)
  then have "1 \<le> q" using assms(2) by simp
  then have "k - 4 = 4 * (2 * q - 1)" using q by simp
  then have "4 dvd k - 4" by (metis dvd_triv_left)
  then show ?thesis using assms(2,3) by (simp add: pos_ok_def)
qed

lemma pos_ok_not_dvd8:
  fixes j k :: nat
  assumes "8 dvd k" "4 \<le> k" "8 dvd j"
  shows "j \<noteq> k - 4"
proof
  assume e: "j = k - 4"
  from assms(1) obtain q where q: "k = 8 * q" by (auto elim: dvdE)
  from assms(3) obtain r where r: "j = 8 * r" by (auto elim: dvdE)
  have "8 * r + 4 = 8 * q" using e q r assms(2) by simp
  then show False by presburger
qed

text \<open>A covering list of blocks: the hole counts as one block.\<close>

definition cover :: "blk list \<Rightarrow> nat \<Rightarrow> blk list \<Rightarrow> blk list" where
  "cover xs N ys = xs @ (if N = 0 then [] else [(N, True)]) @ ys"

lemma fl_ok_cover:
  assumes "fl_ok s xs N ys fl" "y \<in> set fl"
  shows "y \<in> set (blk_pos (first_pos s) (cover xs N ys))"
proof -
  have c: "y \<in> set (blk_pos (first_pos s) xs)
            \<or> y \<in> set (blk_pos (hole_pos s xs + N) ys)
            \<or> (y = hole_pos s xs \<and> 24 \<le> N)"
    using assms unfolding fl_ok_def by blast
  show ?thesis
  proof (cases "N = 0")
    case True
    then show ?thesis using c by (auto simp: cover_def blk_pos_append hole_pos_def)
  next
    case False
    then show ?thesis using c by (auto simp: cover_def blk_pos_append hole_pos_def add.assoc)
  qed
qed

lemma cover_shape:
  assumes "shape xs" "shape ys" "8 dvd N" "N = 0 \<or> 24 \<le> N"
  shows "shape (cover xs N ys)" "total_size (cover xs N ys) = total_size xs + N + total_size ys"
  using assms by (auto simp: cover_def blk_ok_def)

lemma blk_pos_spaced:
  assumes sh: "shape zs" and f8: "8 dvd f" and S: "S + 40 \<le> f" "0 < S" "8 dvd S"
    and top: "f + total_size zs < 4294967296"
    and d: "distinct ps" and sub: "set ps \<subseteq> set (blk_pos f zs)"
  shows "spaced (S # ps)"
proof -
  have bnd: "f \<le> y \<and> y + 24 \<le> f + total_size zs" if "y \<in> set ps" for y
    using blk_pos_bounds [OF sh, of y f] sub that by blast
  have pl: "place_ok y" if "y \<in> set ps" for y
  proof -
    have "8 dvd y" using blk_pos_dvd [OF sh f8, of y] sub that by blast
    moreover have "0 < y" "y + 12 \<le> 4294967296" using bnd [OF that] S top by linarith+
    ultimately show ?thesis by (simp add: place_ok_def)
  qed
  have plS: "place_ok S" using S top by (simp add: place_ok_def)
  have fS: "far S y" "far y S" if "y \<in> set ps" for y
    using bnd [OF that] S by (simp_all add: far_def)
  have ff: "far y z" if "y \<in> set ps" "z \<in> set ps" "y \<noteq> z" for y z
    by (rule blk_pos_far [OF sh _ _ that(3)]) (use sub that in blast)+
  have nS: "S \<notin> set ps"
  proof
    assume "S \<in> set ps"
    then show False using bnd [of S] S by simp
  qed
  show ?thesis
    unfolding spaced_def
  proof (intro conjI ballI impI)
    show "distinct (S # ps)" using d nS by simp
  next
    fix y assume "y \<in> set (S # ps)"
    then show "place_ok y" using pl plS by auto
  next
    fix y z assume "y \<in> set (S # ps)" "z \<in> set (S # ps)" "y \<noteq> z"
    then show "far y z" using fS ff by auto
  qed
qed

lemma hwf_spaced_gen:
  assumes b: "base_ok s" and sg: "seg s xs N ys" and fo: "fl_ok s xs N ys fl"
  shows "spaced (sentinel s # fl)"
proof -
  note ar = seg_arith [OF b sg]
  have n: "N = 0 \<or> 24 \<le> N" and d: "distinct fl" using fo by (simp_all add: fl_ok_def)
  have sh: "shape (cover xs N ys)" and t: "total_size (cover xs N ys) = total_size xs + N + total_size ys"
    using cover_shape [OF ar(11,12,3) n] by blast+
  have top: "first_pos s + total_size (cover xs N ys) < 4294967296"
    using ar(7,8) unfolding t hole_pos_def by linarith
  have sub: "set fl \<subseteq> set (blk_pos (first_pos s) (cover xs N ys))"
    using fl_ok_cover [OF fo] by blast
  have S: "sentinel s + 40 \<le> first_pos s" using ar(5) by simp
  show ?thesis by (rule blk_pos_spaced [OF sh ar(1) S ar(9,10) top d sub])
qed

lemma hwf_spaced: "hwf s xs N ys fl \<Longrightarrow> spaced (sentinel s # fl)"
  by (rule hwf_spaced_gen) (erule hwfD)+

lemma fl_ok_lpos:
  assumes b: "base_ok s" and sg: "seg s xs N ys" and fo: "fl_ok s xs N ys fl"
  shows "\<forall>y\<in>set fl. lpos s xs N ys y"
proof
  fix y assume y: "y \<in> set fl"
  note ar = seg_arith [OF b sg]
  have c: "y \<in> set (blk_pos (first_pos s) xs)
            \<or> y \<in> set (blk_pos (hole_pos s xs + N) ys)
            \<or> (y = hole_pos s xs \<and> 24 \<le> N)"
    using fo y unfolding fl_ok_def by blast
  then consider "y \<in> set (blk_pos (first_pos s) xs)" | "y \<in> set (blk_pos (hole_pos s xs + N) ys)"
    | "y = hole_pos s xs" "24 \<le> N" by blast
  then show "lpos s xs N ys y"
  proof cases
    case 1 then show ?thesis by (simp add: lpos_def)
  next
    case 2 then show ?thesis by (simp add: lpos_def hole_pos_def)
  next
    case 3
    have "8 dvd y" using ar(2) 3(1) by simp
    then show ?thesis using 3 by (simp add: lpos_def hole_pos_def)
  qed
qed

lemma fl_ok_fields:
  assumes "same_fields s s'"
  shows "fl_ok s' xs N ys fl = fl_ok s xs N ys fl"
  using assms by (simp add: fl_ok_def hole_pos_def)

text \<open>Writes to link slots.\<close>

lemma hwf_link_frame:
  assumes h: "hwf s xs N ys fl" and fo: "fl_ok s xs N ys fl'"
    and sub: "link_addrs (sentinel s) fl'' \<subseteq> link_addrs (sentinel s) fl'"
    and fr: "\<forall>j. pos_ok j \<and> j \<notin> link_addrs (sentinel s) fl'' \<longrightarrow> rd (mem s') j = rd (mem s) j"
    and sf: "same_fields s s'"
  shows "base_ok s'" "seg s' xs N ys"
proof -
  note hd = hwfD [OF h]
  have lp: "\<forall>y\<in>set fl'. lpos s xs N ys y" by (rule fl_ok_lpos [OF hd(1,2) fo])
  have fr': "\<forall>j. pos_ok j \<and> j \<notin> link_addrs (sentinel s) fl' \<longrightarrow> rd (mem s') j = rd (mem s) j"
    using fr sub by blast
  show "base_ok s'" "seg s' xs N ys"
    using seg_frame [OF hd(1,2) lp fr' sf] by blast+
qed

lemma links_frame:
  assumes "\<forall>j\<in>link_addrs S fl. rd m' j = rd m j"
  shows "links m' S c p fl = links m S c p fl"
  using assms
proof (induction fl arbitrary: c p)
  case Nil
  then show ?case by (simp add: link_addrs_def)
next
  case (Cons x xs)
  have sub: "link_addrs S xs \<subseteq> link_addrs S (x # xs)" unfolding link_addrs_def by auto
  have x: "x \<in> link_addrs S (x # xs)" "x + 8 \<in> link_addrs S (x # xs)"
    unfolding link_addrs_def by auto
  have r: "rd m' x = rd m x" "rd m' (x + 8) = rd m (x + 8)" using Cons.prems x by blast+
  have "links m' S c' p' xs = links m S c' p' xs" for c' p'
    using Cons.IH [of c' p'] Cons.prems sub by blast
  then show ?case by (simp add: r)
qed

lemma fixed_pos_ok:
  assumes b: "base_ok s" and sg: "seg s xs N ys"
  shows "pos_ok (lo_of s + 4)" "pos_ok (lo_of s + 40)" "pos_ok (brk_of s - 4)"
proof -
  note ar = seg_arith [OF b sg]
  have lo: "8 dvd lo_of s" using b by (simp add: base_ok_def)
  have ge: "lo_of s + 48 \<le> brk_of s" using ar(6,7,13) by linarith
  have d: "8 dvd lo_of s + 8" "8 dvd lo_of s + 40" using lo by simp_all
  have e: "lo_of s + 8 - 4 = lo_of s + 4" by simp
  have "pos_ok (lo_of s + 8 - 4)"
    by (rule dvd8_pos_ok_m4 [OF d(1)]) (use ge ar(8) in linarith)+
  then show "pos_ok (lo_of s + 4)" unfolding e .
  show "pos_ok (lo_of s + 40)"
    by (rule dvd8_pos_ok [OF d(2)]) (use ge ar(8) in linarith)
  show "pos_ok (brk_of s - 4)"
    by (rule dvd8_pos_ok_m4 [OF ar(4)]) (use ge ar(8) in linarith)+
qed

lemma link_addrs_where:
  assumes b: "base_ok s" and sg: "seg s xs N ys" and fo: "fl_ok s xs N ys fl"
    and k: "k \<in> link_addrs (sentinel s) fl"
  shows "k = sentinel s \<or> k + 16 \<le> hole_pos s xs \<or> hole_pos s xs + N \<le> k
          \<or> (hole_pos s xs \<in> set fl \<and> 24 \<le> N \<and> (k = hole_pos s xs \<or> k = hole_pos s xs + 8))"
proof -
  note ar = seg_arith [OF b sg]
  consider "k = sentinel s" | y where "y \<in> set fl" "k = y \<or> k = y + 8"
    using link_addrs_cases [OF k] by blast
  then show ?thesis
  proof cases
    case 1 then show ?thesis by simp
  next
    case (2 y)
    have "y \<in> set (blk_pos (first_pos s) xs)
            \<or> y \<in> set (blk_pos (hole_pos s xs + N) ys)
            \<or> (y = hole_pos s xs \<and> 24 \<le> N)"
      using fo 2(1) unfolding fl_ok_def by blast
    then consider (l) "y \<in> set (blk_pos (first_pos s) xs)"
      | (r) "y \<in> set (blk_pos (hole_pos s xs + N) ys)"
      | (h) "y = hole_pos s xs" "24 \<le> N" by blast
    then show ?thesis
    proof cases
      case l
      have "y + 24 \<le> hole_pos s xs"
        using blk_pos_bounds [OF ar(11) l] by (simp add: hole_pos_def)
      then have "k + 16 \<le> hole_pos s xs" using 2(2) by linarith
      then show ?thesis by simp
    next
      case r
      have "hole_pos s xs + N \<le> y" using blk_pos_bounds [OF ar(12) r] by simp
      then have "hole_pos s xs + N \<le> k" using 2(2) by linarith
      then show ?thesis by simp
    next
      case h
      then show ?thesis using 2 by blast
    qed
  qed
qed

text \<open>Writes inside the hole.\<close>

lemma hwf_hole_frame:
  assumes h: "hwf s xs N ys fl" and sf: "same_fields s s'" and fp: "free_listp s' = free_listp s"
    and fr: "\<forall>j. pos_ok j \<and> (j + 4 < hole_pos s xs \<or> hole_pos s xs + N \<le> j + 4
                \<or> (hole_pos s xs \<in> set fl \<and> (j = hole_pos s xs \<or> j = hole_pos s xs + 8)))
           \<longrightarrow> rd (mem s') j = rd (mem s) j"
  shows "hwf s' xs N ys fl"
proof -
  let ?p = "hole_pos s xs"
  note hd = hwfD [OF h]
  note ar = seg_arith [OF hd(1,2)]
  note fx = fixed_pos_ok [OF hd(1,2)]
  have frj: "rd (mem s') j = rd (mem s) j"
    if "pos_ok j" "j + 4 < ?p \<or> ?p + N \<le> j + 4 \<or> (?p \<in> set fl \<and> (j = ?p \<or> j = ?p + 8))" for j
    using fr that by blast
  have l: "lo_of s' = lo_of s" by (rule same_fields_pos(1) [OF sf])
  have bk: "brk_of s' = brk_of s" and fs: "first_pos s' = first_pos s"
    and sn: "sentinel s' = sentinel s" using sf by simp_all
  have b4: "rd (mem s) (lo_of s + 4) = 25" and b5: "rd (mem s) (lo_of s + 40) AND NOT 7 = 0"
    and b3: "heap_listp s = mem_start_brk s" and lo: "0 < lo_of s" "8 dvd lo_of s"
    using hd(1) unfolding base_ok_def by blast+
  have hl: "heap_listp s' = mem_start_brk s'"
    using sf b3 unfolding same_fields_def by simp
  have r4: "rd (mem s') (lo_of s + 4) = rd (mem s) (lo_of s + 4)"
    by (rule frj [OF fx(1)]) (use ar(6,13) in linarith)
  have r40: "rd (mem s') (lo_of s + 40) = rd (mem s) (lo_of s + 40)"
    by (rule frj [OF fx(2)]) (use ar(6,13) in linarith)
  have ge: "4 \<le> brk_of s" using ar(6,7,13) by linarith
  have rb: "rd (mem s') (brk_of s - 4) = rd (mem s) (brk_of s - 4)"
    by (rule frj [OF fx(3)]) (use ar(7) ge in linarith)
  have B: "base_ok s'"
    unfolding base_ok_def l r4 r40 using lo hl b4 b5 by blast
  have f8: "8 \<le> first_pos s" "4 \<le> first_pos s" using ar(13) by linarith+
  have q8: "8 dvd ?p + N" "8 \<le> ?p + N" "4 \<le> ?p + N"
    using ar(2,3,6) f8 by (simp_all add: dvd_add)
  have tx: "tags (mem s') (first_pos s) xs = tags (mem s) (first_pos s) xs"
  proof (rule tags_frame, rule ballI)
    fix j assume j: "j \<in> tag_addrs (first_pos s) xs"
    have ok: "pos_ok j"
      by (rule tag_addrs_pos_ok [OF ar(11) ar(1) f8(1) _ j]) (use ar(7,8) in \<open>simp add: hole_pos_def\<close>)
    have "j + 8 \<le> ?p" using tag_addrs_bounds [OF ar(11) j f8(2)] by (simp add: hole_pos_def)
    then show "rd (mem s') j = rd (mem s) j" by (intro frj [OF ok]) linarith
  qed
  have ty: "tags (mem s') (?p + N) ys = tags (mem s) (?p + N) ys"
  proof (rule tags_frame, rule ballI)
    fix j assume j: "j \<in> tag_addrs (?p + N) ys"
    have ok: "pos_ok j"
      by (rule tag_addrs_pos_ok [OF ar(12) q8(1,2) _ j]) (use ar(7,8) in linarith)
    have "?p + N \<le> j + 4" using tag_addrs_bounds [OF ar(12) j q8(3)] by simp
    then show "rd (mem s') j = rd (mem s) j" by (intro frj [OF ok]) linarith
  qed
  have sg: "seg s xs N ys" by (rule hd(2))
  have G: "seg s' xs N ys"
    unfolding seg_def bk fs using sg tx ty rb unfolding seg_def hole_pos_def by simp
  have sp: "spaced (sentinel s # fl)" by (rule hwf_spaced [OF h])
  have L: "links (mem s') (sentinel s) (free_listp s) 0 fl = links (mem s) (sentinel s) (free_listp s) 0 fl"
  proof (rule links_frame, rule ballI)
    fix k assume k: "k \<in> link_addrs (sentinel s) fl"
    have ok: "pos_ok k" using link_addrs_ok [OF sp] k by blast
    have w: "k = sentinel s \<or> k + 16 \<le> ?p \<or> ?p + N \<le> k
          \<or> (?p \<in> set fl \<and> 24 \<le> N \<and> (k = ?p \<or> k = ?p + 8))"
      by (rule link_addrs_where [OF hd(1,2,4) k])
    then consider "k = sentinel s" | "k + 16 \<le> ?p" | "?p + N \<le> k"
      | "?p \<in> set fl \<and> (k = ?p \<or> k = ?p + 8)" by blast
    then show "rd (mem s') k = rd (mem s) k"
    proof cases
      case 1 show ?thesis by (rule frj [OF ok]) (use 1 ar(5,6) in linarith)
    next
      case 2 show ?thesis by (rule frj [OF ok]) (use 2 in linarith)
    next
      case 3 show ?thesis by (rule frj [OF ok]) (use 3 in linarith)
    next
      case 4 show ?thesis by (rule frj [OF ok]) (use 4 in blast)
    qed
  qed
  have F: "fl_ok s' xs N ys fl" using hd(4) fl_ok_fields [OF sf] by blast
  show ?thesis
    by (rule hwfI [OF B G _ F]) (use L hd(3) in \<open>simp add: sn fp\<close>)
qed

lemma fl_okI:
  assumes "distinct fl" "N = 0 \<or> 24 \<le> N"
    and "\<And>y. y \<in> set fl \<Longrightarrow> y \<in> set (blk_pos (first_pos s) xs)
            \<or> y \<in> set (blk_pos (hole_pos s xs + N) ys)
            \<or> (y = hole_pos s xs \<and> 24 \<le> N)"
  shows "fl_ok s xs N ys fl"
  using assms unfolding fl_ok_def by blast

lemma fl_okD:
  assumes "fl_ok s xs N ys fl"
  shows "distinct fl" "N = 0 \<or> 24 \<le> N"
    and "\<And>y. y \<in> set fl \<Longrightarrow> y \<in> set (blk_pos (first_pos s) xs)
            \<or> y \<in> set (blk_pos (hole_pos s xs + N) ys)
            \<or> (y = hole_pos s xs \<and> 24 \<le> N)"
  using assms unfolding fl_ok_def by blast+

lemma fl_ok_cases:
  assumes "fl_ok s xs N ys fl" "y \<in> set fl"
  obtains (left) "y \<in> set (blk_pos (first_pos s) xs)"
    | (right) "y \<in> set (blk_pos (hole_pos s xs + N) ys)"
    | (hole) "y = hole_pos s xs" "24 \<le> N"
  using fl_okD(3) [OF assms] by blast

text \<open>Closing a hole with a tagged block and opening a block into the hole.\<close>

lemma hwf_close:
  assumes h: "hwf s xs N ys fl" and bo: "blk_ok (n, a)" and le: "n \<le> N"
    and rest: "N - n = 0 \<or> 24 \<le> N - n"
    and hdr: "rd (mem s) (hole_pos s xs - 4) = tag n a"
    and ftr: "rd (mem s) (hole_pos s xs + n - 8) = tag n a"
  shows "hwf s (xs @ [(n, a)]) (N - n) ys fl"
proof -
  note hd = hwfD [OF h]
  note ar = seg_arith [OF hd(1,2)]
  have n: "24 \<le> n" "8 dvd n" using bo by (simp_all add: blk_ok_def)
  have d: "8 dvd N - n" using ar(3) n(2) by (rule dvd_diff_nat)
  have e: "first_pos s + total_size (xs @ [(n, a)]) + (N - n) = first_pos s + total_size xs + N"
    using le by simp
  have sg: "seg s xs N ys" by (rule hd(2))
  have G: "seg s (xs @ [(n, a)]) (N - n) ys"
    unfolding seg_def e using sg bo d hdr ftr unfolding seg_def hole_pos_def
    by (simp add: tags_append)
  have hp: "hole_pos s (xs @ [(n, a)]) + (N - n) = hole_pos s xs + N"
    using le by (simp add: hole_pos_def)
  have F: "fl_ok s (xs @ [(n, a)]) (N - n) ys fl"
  proof (rule fl_okI [OF fl_okD(1) [OF hd(4)] rest])
    fix y assume y: "y \<in> set fl"
    have bp: "set (blk_pos (first_pos s) (xs @ [(n, a)]))
        = set (blk_pos (first_pos s) xs) \<union> {hole_pos s xs}"
      by (simp add: blk_pos_append hole_pos_def)
    from hd(4) y show "y \<in> set (blk_pos (first_pos s) (xs @ [(n, a)]))
            \<or> y \<in> set (blk_pos (hole_pos s (xs @ [(n, a)]) + (N - n)) ys)
            \<or> (y = hole_pos s (xs @ [(n, a)]) \<and> 24 \<le> N - n)"
      unfolding hp bp by (cases rule: fl_ok_cases) blast+
  qed
  show ?thesis by (rule hwfI [OF hd(1) G hd(3) F])
qed

lemma hwf_open_first:
  assumes h: "hwf s xs N (b # ys) fl" and nf: "N = 0 \<or> hole_pos s xs + N \<notin> set fl"
  shows "hwf s xs (N + fst b) ys fl"
proof -
  note hd = hwfD [OF h]
  note ar = seg_arith [OF hd(1,2)]
  have bo: "24 \<le> fst b" "8 dvd fst b" using ar(12) by (simp_all add: blk_ok_def)
  have sg: "seg s xs N (b # ys)" by (rule hd(2))
  have G: "seg s xs (N + fst b) ys"
    unfolding seg_def using sg bo ar(3) unfolding seg_def by (simp add: add.assoc)
  have N: "N = 0 \<or> 24 \<le> N" by (rule fl_okD(2) [OF hd(4)])
  have N': "N + fst b = 0 \<or> 24 \<le> N + fst b" using bo(1) by linarith
  have F: "fl_ok s xs (N + fst b) ys fl"
  proof (rule fl_okI [OF fl_okD(1) [OF hd(4)] N'])
    fix y assume y: "y \<in> set fl"
    have bp: "set (blk_pos (hole_pos s xs + N) (b # ys))
        = {hole_pos s xs + N} \<union> set (blk_pos (hole_pos s xs + (N + fst b)) ys)"
      by (simp add: add.assoc)
    from hd(4) y show "y \<in> set (blk_pos (first_pos s) xs)
            \<or> y \<in> set (blk_pos (hole_pos s xs + (N + fst b)) ys)
            \<or> (y = hole_pos s xs \<and> 24 \<le> N + fst b)"
    proof (cases rule: fl_ok_cases)
      case left then show ?thesis by blast
    next
      case right
      then consider "y = hole_pos s xs + N" | "y \<in> set (blk_pos (hole_pos s xs + (N + fst b)) ys)"
        unfolding bp by blast
      then show ?thesis
      proof cases
        case 1
        then have "N = 0" using nf y by blast
        then show ?thesis using 1 bo(1) by simp
      next
        case 2 then show ?thesis by blast
      qed
    next
      case hole then show ?thesis using bo(1) by simp
    qed
  qed
  show ?thesis by (rule hwfI [OF hd(1) G hd(3) F])
qed

lemma hwf_open_last:
  assumes h: "hwf s (xs @ [b]) N ys fl" and nf: "N = 0 \<or> hole_pos s (xs @ [b]) \<notin> set fl"
  shows "hwf s xs (fst b + N) ys fl"
proof -
  note hd = hwfD [OF h]
  note ar = seg_arith [OF hd(1,2)]
  have bo: "24 \<le> fst b" "8 dvd fst b" using ar(11) by (simp_all add: blk_ok_def)
  have sg: "seg s (xs @ [b]) N ys" by (rule hd(2))
  have G: "seg s xs (fst b + N) ys"
    unfolding seg_def using sg bo ar(3) unfolding seg_def by (simp add: add.assoc tags_append)
  have N: "N = 0 \<or> 24 \<le> N" by (rule fl_okD(2) [OF hd(4)])
  have N': "fst b + N = 0 \<or> 24 \<le> fst b + N" using bo(1) by linarith
  have hp: "hole_pos s (xs @ [b]) + N = hole_pos s xs + (fst b + N)"
    by (simp add: hole_pos_def)
  have F: "fl_ok s xs (fst b + N) ys fl"
  proof (rule fl_okI [OF fl_okD(1) [OF hd(4)] N'])
    fix y assume y: "y \<in> set fl"
    have bp: "set (blk_pos (first_pos s) (xs @ [b]))
        = set (blk_pos (first_pos s) xs) \<union> {hole_pos s xs}"
      by (simp add: blk_pos_append hole_pos_def)
    from hd(4) y show "y \<in> set (blk_pos (first_pos s) xs)
            \<or> y \<in> set (blk_pos (hole_pos s xs + (fst b + N)) ys)
            \<or> (y = hole_pos s xs \<and> 24 \<le> fst b + N)"
    proof (cases rule: fl_ok_cases)
      case left then show ?thesis unfolding bp using bo(1) by auto
    next
      case right then show ?thesis unfolding hp by blast
    next
      case hole then show ?thesis using nf y by auto
    qed
  qed
  show ?thesis by (rule hwfI [OF hd(1) G hd(3) F])
qed

text \<open>Unlinking a member, and inserting a new head.\<close>

lemma hwf_remove:
  assumes h: "hwf s xs N ys fl" and x: "x \<in> set fl"
  shows "hwf (remove_block s (W x)) xs N ys (remove1 x fl)"
    and "same_fields s (remove_block s (W x))"
proof -
  note hd = hwfD [OF h]
  let ?s' = "remove_block s (W x)"
  show sf: "same_fields s ?s'" by simp
  from x obtain as bs where fl: "fl = as @ x # bs" by (auto dest: split_list)
  have d: "distinct fl" using hd(4) by (simp add: fl_ok_def)
  have r: "remove1 x fl = as @ bs" using d unfolding fl by (simp add: remove1_append)
  have sp: "spaced (sentinel s # as @ x # bs)" using hwf_spaced [OF h] unfolding fl .
  have lk: "links (mem s) (sentinel s) (free_listp s) 0 (as @ x # bs)" using hd(3) unfolding fl .
  note rs = remove_block_spec [OF lk sp]
  have fr: "\<forall>j. pos_ok j \<and> j \<notin> link_addrs (sentinel s) fl \<longrightarrow> rd (mem ?s') j = rd (mem s) j"
    using rs(2) unfolding fl .
  have BG: "base_ok ?s'" "seg ?s' xs N ys"
    using hwf_link_frame [OF h hd(4) subset_refl fr sf] by blast+
  have F0: "fl_ok s xs N ys (as @ bs)"
  proof (rule fl_okI [OF _ fl_okD(2) [OF hd(4)]])
    show "distinct (as @ bs)" using d unfolding fl by auto
    fix y assume "y \<in> set (as @ bs)"
    then have "y \<in> set fl" unfolding fl by auto
    then show "y \<in> set (blk_pos (first_pos s) xs)
            \<or> y \<in> set (blk_pos (hole_pos s xs + N) ys)
            \<or> (y = hole_pos s xs \<and> 24 \<le> N)"
      by (rule fl_okD(3) [OF hd(4)])
  qed
  have F: "fl_ok ?s' xs N ys (as @ bs)" using F0 fl_ok_fields [OF sf] by blast
  have sn: "sentinel ?s' = sentinel s" using sf by simp
  show "hwf ?s' xs N ys (remove1 x fl)"
    unfolding r by (rule hwfI [OF BG _ F]) (use rs(1) in \<open>simp add: sn\<close>)
qed

lemma hwf_insert:
  assumes h: "hwf s xs N ys fl" and fo: "fl_ok s xs N ys (x # fl)"
  shows "hwf (insert_at_front s (W x)) xs N ys (x # fl)"
    and "same_fields s (insert_at_front s (W x))"
    and "free_listp (insert_at_front s (W x)) = W x"
proof -
  note hd = hwfD [OF h]
  let ?s' = "insert_at_front s (W x)"
  show sf: "same_fields s ?s'" by simp
  show "free_listp ?s' = W x" by (simp add: insert_at_front_def Let_def)
  have sp: "spaced (sentinel s # x # fl)" by (rule hwf_spaced_gen [OF hd(1,2) fo])
  note ins = insert_at_front_spec [OF hd(3) sp]
  have BG: "base_ok ?s'" "seg ?s' xs N ys"
    using hwf_link_frame [OF h fo subset_refl ins(2) sf] by blast+
  have F: "fl_ok ?s' xs N ys (x # fl)" using fo fl_ok_fields [OF sf] by blast
  have sn: "sentinel ?s' = sentinel s" using sf by simp
  have fp: "free_listp ?s' = W x" by (simp add: insert_at_front_def Let_def)
  show "hwf ?s' xs N ys (x # fl)"
    by (rule hwfI [OF BG _ F]) (use ins(1) in \<open>simp add: sn fp\<close>)
qed

section \<open>The macros on a tiling\<close>

lemma HDRP_W: "4 \<le> y \<Longrightarrow> HDRP (W y) = W (y - 4)"
  by (simp add: HDRP_def WSIZE_def W_minus_num)

lemma hdr_macros:
  assumes r: "rd (mem s) (y - 4) = tag n a" and n: "8 dvd n" "n < 4294967296" and y: "4 \<le> y"
  shows "GET s (HDRP (W y)) = tag n a" "GET_SIZE s (HDRP (W y)) = W n"
    "GET_ALLOC s (HDRP (W y)) = (if a then 1 else 0)" "NEXT_BLKP s (W y) = W (y + n)"
    "8 \<le> y + n \<Longrightarrow> FTRP s (W y) = W (y + n - 8)"
proof -
  show g: "GET s (HDRP (W y)) = tag n a" using r y by (simp add: HDRP_W GET_W)
  show sz: "GET_SIZE s (HDRP (W y)) = W n"
    unfolding GET_SIZE_def g by (rule tag_size [OF n])
  show "GET_ALLOC s (HDRP (W y)) = (if a then 1 else 0)"
    unfolding GET_ALLOC_def g by (rule tag_alloc [OF n])
  show "NEXT_BLKP s (W y) = W (y + n)"
    unfolding NEXT_BLKP_def sz by (rule W_add)
  show "FTRP s (W y) = W (y + n - 8)" if "8 \<le> y + n"
    unfolding FTRP_def sz W_add DSIZE_def using that by (rule W_minus_num)
qed

lemma alloc_word:
  "GET_ALLOC s a = 0 \<or> GET_ALLOC s a = 1"
proof -
  have "GET s a AND 1 = 0 \<or> GET s a AND 1 = 1"
    by (metis and_one_eq even_iff_mod_2_eq_zero odd_iff_mod_2_eq_one)
  then show ?thesis by (simp add: GET_ALLOC_def)
qed

lemma prev_macro_gen:
  assumes "8 \<le> y"
  shows "PREV_BLKP s (W y) = W y - (rd (mem s) (y - 8) AND NOT 7)"
proof -
  have "HDRP (W y) - WSIZE = W (y - 8)"
    using assms by (simp add: HDRP_def WSIZE_def W_minus_num)
  then show ?thesis by (simp add: PREV_BLKP_def GET_SIZE_def GET_W)
qed

lemma prev_macro:
  assumes r: "rd (mem s) (y - 8) = tag n a" and n: "8 dvd n" "n < 4294967296" "n \<le> y"
    and y: "8 \<le> y"
  shows "PREV_BLKP s (W y) = W (y - n)"
  unfolding prev_macro_gen [OF y] r tag_size [OF n(1,2)] by (rule W_sub [OF n(3)])

lemma prev_macro_gap:
  assumes r: "rd (mem s) (y - 8) AND NOT 7 = 0" and y: "8 \<le> y"
  shows "PREV_BLKP s (W y) = W y"
  unfolding prev_macro_gen [OF y] r by simp

lemma put_tags:
  assumes ok: "pos_ok (y - 4)" and y: "4 \<le> y" and n: "8 dvd n" "n < 4294967296" "8 \<le> y + n"
  shows "PUT (PUT s (HDRP (W y)) (tag n a)) (FTRP (PUT s (HDRP (W y)) (tag n a)) (W y)) (tag n a)
         = s\<lparr>mem := wr (wr (mem s) (y - 4) (tag n a)) (y + n - 8) (tag n a)\<rparr>"
proof -
  let ?s1 = "PUT s (HDRP (W y)) (tag n a)"
  have m1: "mem ?s1 = wr (mem s) (y - 4) (tag n a)" using y by (simp add: HDRP_W mem_PUT_W)
  have r: "rd (mem ?s1) (y - 4) = tag n a" unfolding m1 by (rule rd_wr_same)
  have f: "FTRP ?s1 (W y) = W (y + n - 8)" by (rule hdr_macros(5) [OF r n(1,2) y n(3)])
  have e: "?s1 = s\<lparr>mem := wr (mem s) (y - 4) (tag n a)\<rparr>"
    using y by (simp add: HDRP_W PUT_def wr_def)
  show ?thesis unfolding f unfolding e by (simp add: PUT_def wr_def)
qed

lemma tags_at:
  assumes "tags m f (us @ (n, a) # vs)"
  shows "rd m (f + total_size us - 4) = tag n a" "rd m (f + total_size us + n - 8) = tag n a"
  using assms by (simp_all add: tags_append)

lemma hwf_tags:
  assumes "hwf s xs N ys fl"
  shows "tags (mem s) (first_pos s) xs" "tags (mem s) (hole_pos s xs + N) ys"
    "rd (mem s) (brk_of s - 4) = 1"
  using hwfD(2) [OF assms] unfolding seg_def hole_pos_def by blast+

text \<open>Writing the two boundary tags of a block at the start of the hole.\<close>

lemma hwf_retag:
  assumes h: "hwf s xs N ys fl" and bo: "blk_ok (n, a)" and le: "n \<le> N"
    and rest: "N - n = 0 \<or> 24 \<le> N - n"
    and s': "s' = s\<lparr>mem := wr (wr (mem s) (hole_pos s xs - 4) (tag n a))
                               (hole_pos s xs + n - 8) (tag n a)\<rparr>"
  shows "hwf s' (xs @ [(n, a)]) (N - n) ys fl"
proof -
  let ?p = "hole_pos s xs"
  note hd = hwfD [OF h]
  note ar = seg_arith [OF hd(1,2)]
  have n: "24 \<le> n" "8 dvd n" using bo by (simp_all add: blk_ok_def)
  have p4: "4 \<le> ?p" using ar(6,13) by linarith
  have top: "?p + n \<le> brk_of s" using ar(7) le by linarith
  have ok1: "pos_ok (?p - 4)"
    by (rule dvd8_pos_ok_m4 [OF ar(2) p4]) (use top ar(8) in linarith)
  have d: "8 dvd ?p + n - 8"
    using ar(2) n by (simp add: dvd_add)
  have ok2: "pos_ok (?p + n - 8)"
    by (rule dvd8_pos_ok [OF d]) (use top ar(8) n(1) in linarith)
  have ne: "?p - 4 \<noteq> ?p + n - 8" using n(1) p4 by linarith
  have sf: "same_fields s s'" unfolding s' by simp
  have fp: "free_listp s' = free_listp s" unfolding s' by simp
  have m: "mem s' = wr (wr (mem s) (?p - 4) (tag n a)) (?p + n - 8) (tag n a)"
    unfolding s' by simp
  have H: "hwf s' xs N ys fl"
  proof (rule hwf_hole_frame [OF h sf fp], intro allI impI)
    fix j
    assume a: "pos_ok j \<and> (j + 4 < ?p \<or> ?p + N \<le> j + 4
                \<or> (?p \<in> set fl \<and> (j = ?p \<or> j = ?p + 8)))"
    then have "j + 4 < ?p \<or> ?p + N \<le> j + 4 \<or> j = ?p \<or> j = ?p + 8" by blast
    then have "j \<noteq> ?p - 4" "j \<noteq> ?p + n - 8" using n(1) p4 le by linarith+
    then show "rd (mem s') j = rd (mem s) j"
      unfolding m using a ok1 ok2 by (simp add: rd_wr_other)
  qed
  have hp: "hole_pos s' xs = ?p" using sf by (simp add: hole_pos_def)
  have r1: "rd (mem s') (?p - 4) = tag n a"
    unfolding m using ok1 ok2 ne by (simp add: rd_wr)
  have r2: "rd (mem s') (?p + n - 8) = tag n a"
    unfolding m by (rule rd_wr_same)
  show ?thesis
    by (rule hwf_close [OF H bo le rest]) (simp_all add: hp r1 r2)
qed

lemma hwf_put_tags:
  assumes h: "hwf s xs N ys fl" and bo: "blk_ok (n, a)" and le: "n \<le> N"
    and rest: "N - n = 0 \<or> 24 \<le> N - n"
    and s': "s' = PUT (PUT s (HDRP (W (hole_pos s xs))) (tag n a))
                    (FTRP (PUT s (HDRP (W (hole_pos s xs))) (tag n a)) (W (hole_pos s xs))) (tag n a)"
  shows "hwf s' (xs @ [(n, a)]) (N - n) ys fl" "same_fields s s'" "free_listp s' = free_listp s"
proof -
  let ?p = "hole_pos s xs"
  note hd = hwfD [OF h]
  note ar = seg_arith [OF hd(1,2)]
  have n: "24 \<le> n" "8 dvd n" using bo by (simp_all add: blk_ok_def)
  have p4: "4 \<le> ?p" using ar(6,13) by linarith
  have top: "?p + n \<le> brk_of s" using ar(7) le by linarith
  have ok1: "pos_ok (?p - 4)"
    by (rule dvd8_pos_ok_m4 [OF ar(2) p4]) (use top ar(8) in linarith)
  have nl: "n < 4294967296" using top ar(8) by linarith
  have e: "s' = s\<lparr>mem := wr (wr (mem s) (?p - 4) (tag n a)) (?p + n - 8) (tag n a)\<rparr>"
    unfolding s' by (rule put_tags [OF ok1 p4 n(2) nl]) (use n(1) in linarith)
  show "hwf s' (xs @ [(n, a)]) (N - n) ys fl" by (rule hwf_retag [OF h bo le rest e])
  show "same_fields s s'" unfolding e by simp
  show "free_listp s' = free_listp s" unfolding e by simp
qed

lemma seg_shift: "seg s (xs @ [b]) 0 ys = seg s xs 0 (b # ys)"
  unfolding seg_def by (auto simp: tags_append add.assoc)

lemma fl_ok_shift: "fl_ok s (xs @ [b]) 0 ys fl = fl_ok s xs 0 (b # ys) fl"
  unfolding fl_ok_def by (auto simp: blk_pos_append hole_pos_def add.assoc)

lemma hwf_shift: "hwf s (xs @ [b]) 0 ys fl = hwf s xs 0 (b # ys) fl"
  unfolding hwf_def seg_shift fl_ok_shift ..

lemma seg_flat: "seg s xs 0 ys = seg s (xs @ ys) 0 []"
  unfolding seg_def by (auto simp: tags_append add.assoc)

lemma fl_ok_flat: "fl_ok s xs 0 ys fl = fl_ok s (xs @ ys) 0 [] fl"
  unfolding fl_ok_def by (auto simp: blk_pos_append hole_pos_def add.assoc)

lemma hwf_flat: "hwf s xs 0 ys fl = hwf s (xs @ ys) 0 [] fl"
  unfolding hwf_def seg_flat [of s xs ys] fl_ok_flat [of s xs ys fl] ..

lemma hole_pos_append [simp]: "hole_pos s (xs @ ys) = hole_pos s xs + total_size ys"
  by (simp add: hole_pos_def)

lemma hole_pos_fields: "same_fields s s' \<Longrightarrow> hole_pos s' xs = hole_pos s xs"
  by (simp add: hole_pos_def)

text \<open>What the macros read at a block of the tiling.\<close>

lemma blk_arith:
  assumes h: "hwf t (xs @ [(n, a)]) 0 ys fl"
  shows "8 dvd hole_pos t xs" "48 \<le> hole_pos t xs" "hole_pos t xs + n \<le> brk_of t"
    "brk_of t < 4294967296" "24 \<le> n" "8 dvd n" "first_pos t \<le> hole_pos t xs"
    "hole_pos t xs + n + total_size ys = brk_of t"
proof -
  note hd = hwfD [OF h]
  note ar = seg_arith [OF hd(1,2)]
  have sh: "shape xs" "blk_ok (n, a)" using ar(11) by simp_all
  show "24 \<le> n" "8 dvd n" using sh(2) by (simp_all add: blk_ok_def)
  have "8 dvd total_size xs" by (rule total_dvd [OF sh(1)])
  then show "8 dvd hole_pos t xs" using ar(1) by (simp add: hole_pos_def)
  show "48 \<le> hole_pos t xs" using ar(13) by (simp add: hole_pos_def)
  show "hole_pos t xs + n \<le> brk_of t" using ar(7) by simp
  show "brk_of t < 4294967296" by (rule ar(8))
  show "first_pos t \<le> hole_pos t xs" by (simp add: hole_pos_def)
  show "hole_pos t xs + n + total_size ys = brk_of t" using ar(7) by simp
qed

lemma blk_reads:
  assumes h: "hwf t (xs @ [(n, a)]) 0 ys fl"
  shows "GET_SIZE t (HDRP (W (hole_pos t xs))) = W n"
    "GET_ALLOC t (HDRP (W (hole_pos t xs))) = (if a then 1 else 0)"
    "NEXT_BLKP t (W (hole_pos t xs)) = W (hole_pos t xs + n)"
    "FTRP t (W (hole_pos t xs)) = W (hole_pos t xs + n - 8)"
    "GET t (HDRP (W (hole_pos t xs))) = tag n a"
    "GET t (FTRP t (W (hole_pos t xs))) = tag n a"
    "GET_ALLOC t (FTRP t (W (hole_pos t xs))) = (if a then 1 else 0)"
proof -
  let ?p = "hole_pos t xs"
  note ba = blk_arith [OF h]
  have tg: "tags (mem t) (first_pos t) (xs @ (n, a) # [])" using hwf_tags(1) [OF h] by simp
  have r: "rd (mem t) (?p - 4) = tag n a" "rd (mem t) (?p + n - 8) = tag n a"
    using tags_at [OF tg] by (simp_all add: hole_pos_def)
  have nl: "n < 4294967296" using ba(3,4) by linarith
  have p4: "4 \<le> ?p" "8 \<le> ?p + n" using ba(2) by linarith+
  note m = hdr_macros [OF r(1) ba(6) nl p4(1)]
  show "GET_SIZE t (HDRP (W ?p)) = W n" "GET_ALLOC t (HDRP (W ?p)) = (if a then 1 else 0)"
    "NEXT_BLKP t (W ?p) = W (?p + n)" "GET t (HDRP (W ?p)) = tag n a"
    by (rule m)+
  show f: "FTRP t (W ?p) = W (?p + n - 8)" by (rule m(5) [OF p4(2)])
  show g: "GET t (FTRP t (W ?p)) = tag n a" unfolding f GET_W by (rule r(2))
  show "GET_ALLOC t (FTRP t (W ?p)) = (if a then 1 else 0)"
    unfolding GET_ALLOC_def g by (rule tag_alloc [OF ba(6) nl])
qed

lemma blk_prev_first:
  assumes h: "hwf t ([] @ [(n, a)]) 0 ys fl"
  shows "PREV_BLKP t (W (hole_pos t [])) = W (hole_pos t [])"
proof -
  note hd = hwfD [OF h]
  have g: "rd (mem t) (lo_of t + 40) AND NOT 7 = 0" using hd(1) unfolding base_ok_def by blast
  have e: "hole_pos t [] - 8 = lo_of t + 40" by (simp add: hole_pos_def first_pos_def)
  have r: "rd (mem t) (hole_pos t [] - 8) AND NOT 7 = 0" unfolding e by (rule g)
  show ?thesis by (rule prev_macro_gap [OF r]) (simp add: hole_pos_def first_pos_def)
qed

lemma blk_prev:
  assumes h: "hwf t ((xs @ [(n1, a1)]) @ [(n, a)]) 0 ys fl"
  shows "PREV_BLKP t (W (hole_pos t xs + n1)) = W (hole_pos t xs)"
proof -
  have h1: "hwf t (xs @ [(n1, a1)]) 0 ((n, a) # ys) fl" using h by (simp only: hwf_shift)
  note ba = blk_arith [OF h1]
  have tg: "tags (mem t) (first_pos t) (xs @ (n1, a1) # [])" using hwf_tags(1) [OF h1] by simp
  have "rd (mem t) (hole_pos t xs + n1 - 8) = tag n1 a1"
    using tags_at(2) [OF tg] by (simp add: hole_pos_def)
  then have r: "rd (mem t) (hole_pos t xs + n1 - 8) = tag n1 a1" .
  have nl: "n1 < 4294967296" using ba(3,4) by linarith
  have "PREV_BLKP t (W (hole_pos t xs + n1)) = W (hole_pos t xs + n1 - n1)"
    by (rule prev_macro [OF r ba(6) nl]) (use ba(2) in linarith)+
  then show ?thesis by simp
qed

lemma blk_next_end:
  assumes h: "hwf t (xs @ [(n, a)]) 0 [] fl"
  shows "GET_ALLOC t (HDRP (W (hole_pos t xs + n))) = 1"
proof -
  note ba = blk_arith [OF h]
  have e: "hole_pos t xs + n = brk_of t" using ba(8) by simp
  have "rd (mem t) (brk_of t - 4) = 1" by (rule hwf_tags(3) [OF h])
  moreover have "4 \<le> brk_of t" using ba(2,3) by linarith
  ultimately show ?thesis unfolding e by (simp add: GET_ALLOC_def HDRP_W GET_W)
qed

text \<open>Tagging the hole as one free block and putting it in front of the list.\<close>

lemma fill_free:
  assumes h: "hwf t xs M ys fl" and M: "24 \<le> M" and nf: "hole_pos t xs \<notin> set fl"
    and t2: "t2 = PUT (PUT t (HDRP (W (hole_pos t xs))) (tag M False))
               (FTRP (PUT t (HDRP (W (hole_pos t xs))) (tag M False)) (W (hole_pos t xs)))
               (tag M False)"
    and t3: "t3 = insert_at_front t2 (W (hole_pos t xs))"
  shows "hwf t3 (xs @ [(M, False)]) 0 ys (hole_pos t xs # fl)"
    "same_fields t t3" "free_listp t3 = W (hole_pos t xs)"
proof -
  let ?r = "hole_pos t xs"
  note hd = hwfD [OF h]
  note ar = seg_arith [OF hd(1,2)]
  have bo: "blk_ok (M, False)" using M ar(3) by (simp add: blk_ok_def)
  note pt = hwf_put_tags [OF h bo le_refl _ t2]
  have h2: "hwf t2 (xs @ [(M, False)]) 0 ys fl" using pt(1) by simp
  have sf2: "same_fields t t2" using pt(2) by simp
  have fo2: "fl_ok t2 (xs @ [(M, False)]) 0 ys fl" by (rule hwfD(4) [OF h2])
  have fs: "first_pos t2 = first_pos t" using sf2 by simp
  have hp: "hole_pos t2 xs = ?r" by (rule hole_pos_fields [OF sf2])
  have fo: "fl_ok t2 (xs @ [(M, False)]) 0 ys (?r # fl)"
  proof (rule fl_okI)
    show "distinct (?r # fl)" using nf fl_okD(1) [OF fo2] by simp
    show "(0::nat) = 0 \<or> 24 \<le> (0::nat)" by simp
    fix y assume "y \<in> set (?r # fl)"
    then consider "y = ?r" | "y \<in> set fl" by auto
    then show "y \<in> set (blk_pos (first_pos t2) (xs @ [(M, False)]))
        \<or> y \<in> set (blk_pos (hole_pos t2 (xs @ [(M, False)]) + 0) ys)
        \<or> (y = hole_pos t2 (xs @ [(M, False)]) \<and> 24 \<le> (0::nat))"
    proof cases
      case 1
      then have "y \<in> set (blk_pos (first_pos t2) (xs @ [(M, False)]))"
        by (simp add: blk_pos_append fs hole_pos_def)
      then show ?thesis by blast
    next
      case 2
      then show ?thesis using fl_okD(3) [OF fo2] by blast
    qed
  qed
  note hi = hwf_insert [OF h2 fo]
  show "hwf t3 (xs @ [(M, False)]) 0 ys (?r # fl)" unfolding t3 by (rule hi(1))
  show "same_fields t t3" unfolding t3 by (rule same_fields_trans [OF sf2 hi(2)])
  show "free_listp t3 = W ?r" unfolding t3 by (rule hi(3))
qed

section \<open>The four cases of the coalescer\<close>

lemma remove1_notin: "distinct l \<Longrightarrow> x \<notin> set (remove1 x l)"
  by simp

lemma notin_remove1: "x \<notin> set l \<Longrightarrow> x \<notin> set (remove1 y l)"
  by (metis notin_set_remove1)

lemma hwf_distinct: "hwf s xs N ys fl \<Longrightarrow> distinct fl"
  using fl_okD(1) hwfD(4) by blast

lemma W_neq: "a < b \<Longrightarrow> b < 4294967296 \<Longrightarrow> W a \<noteq> W b"
  using W_inj [of a b] by simp

text \<open>Both neighbours free.\<close>

lemma co_D:
  assumes h: "hwf s ((xs0 @ [(n1, False)]) @ [(n, False)]) 0 ((n2, False) # ys') fl"
    and pp: "pp = hole_pos s xs0" and p: "p = pp + n1" and nx: "nx = p + n"
    and nf: "p \<notin> set fl" and pin: "pp \<in> set fl" and nin: "nx \<in> set fl"
    and M: "M = n1 + (n + n2)"
  shows "snd (coalesce s (W p)) = W pp"
    "hwf (fst (coalesce s (W p))) (xs0 @ [(M, False)]) 0 ys' (pp # remove1 nx (remove1 pp fl))"
    "same_fields s (fst (coalesce s (W p)))"
    "free_listp (fst (coalesce s (W p))) = W pp"
proof -
  have hp: "hole_pos s (xs0 @ [(n1, False)]) = p" by (simp add: p pp)
  have hn: "hole_pos s ((xs0 @ [(n1, False)]) @ [(n, False)]) = nx" by (simp add: p pp nx)
  have h_prev: "hwf s (xs0 @ [(n1, False)]) 0 ((n, False) # (n2, False) # ys') fl"
    using h by (simp only: hwf_shift)
  have h_next: "hwf s (((xs0 @ [(n1, False)]) @ [(n, False)]) @ [(n2, False)]) 0 ys' fl"
    using h by (simp only: hwf_shift)
  note ba = blk_arith [OF h, unfolded hp]
  note bap = blk_arith [OF h_prev, folded pp]
  note ban = blk_arith [OF h_next, unfolded hn]
  have lt: "pp < p" "p < nx" "nx < 4294967296" "p < 4294967296"
    using bap(5) ba(5) ban(3,4,5) p nx by linarith+
  have R1: "PREV_BLKP s (W p) = W pp" using blk_prev [OF h] by (simp add: p pp)
  have R2: "GET_ALLOC s (FTRP s (W pp)) = 0" using blk_reads(7) [OF h_prev] by (simp add: pp)
  have R3: "NEXT_BLKP s (W p) = W nx" using blk_reads(3) [OF h] unfolding hp nx .
  have R4: "GET_ALLOC s (HDRP (W nx)) = 0" using blk_reads(2) [OF h_next] unfolding hn by simp
  have R5: "GET_SIZE s (HDRP (W p)) = W n" using blk_reads(1) [OF h] unfolding hp .
  have R6: "GET_SIZE s (HDRP (W pp)) = W n1" using blk_reads(1) [OF h_prev] by (simp add: pp)
  have R7: "GET_SIZE s (HDRP (W nx)) = W n2" using blk_reads(1) [OF h_next] unfolding hn .
  have R8: "W pp \<noteq> W p" by (rule W_neq [OF lt(1,4)])
  define s1 where "s1 = remove_block s (W pp)"
  have h1: "hwf s1 ((xs0 @ [(n1, False)]) @ [(n, False)]) 0 ((n2, False) # ys') (remove1 pp fl)"
    and sf1: "same_fields s s1"
    unfolding s1_def using hwf_remove [OF h pin] by blast+
  have hp1: "hole_pos s1 (xs0 @ [(n1, False)]) = p" using hole_pos_fields [OF sf1] hp by simp
  have N1: "NEXT_BLKP s1 (W p) = W nx" using blk_reads(3) [OF h1] unfolding hp1 nx .
  have nin1: "nx \<in> set (remove1 pp fl)" using nin lt by simp
  define s2 where "s2 = remove_block s1 (W nx)"
  define fl2 where "fl2 = remove1 nx (remove1 pp fl)"
  have h2: "hwf s2 ((xs0 @ [(n1, False)]) @ [(n, False)]) 0 ((n2, False) # ys') fl2"
    and sf2: "same_fields s1 s2"
    unfolding s2_def fl2_def using hwf_remove [OF h1 nin1] by blast+
  have sf02: "same_fields s s2" by (rule same_fields_trans [OF sf1 sf2])
  have hpp2: "hole_pos s2 xs0 = pp" using hole_pos_fields [OF sf02] pp by simp
  have P2: "PREV_BLKP s2 (W p) = W pp" using blk_prev [OF h2] by (simp add: hpp2 p)
  have d: "distinct fl" by (rule hwf_distinct [OF h])
  have d1: "distinct (remove1 pp fl)" using d by simp
  have nn: "nx \<notin> set fl2" "p \<notin> set fl2" "pp \<notin> set fl2"
    unfolding fl2_def using remove1_notin [OF d1, of nx] notin_remove1 [OF notin_remove1 [OF nf]]
      notin_remove1 [OF remove1_notin [OF d]] by blast+
  have h2a: "hwf s2 ((xs0 @ [(n1, False)]) @ [(n, False)]) n2 ys' fl2"
    using hwf_open_first [OF h2] by simp
  have e1: "hole_pos s2 ((xs0 @ [(n1, False)]) @ [(n, False)]) = nx"
    using hpp2 by (simp add: p nx)
  have e2: "hole_pos s2 (xs0 @ [(n1, False)]) = p" using hpp2 by (simp add: p)
  have c1: "n2 = 0 \<or> hole_pos s2 ((xs0 @ [(n1, False)]) @ [(n, False)]) \<notin> set fl2"
    unfolding e1 using nn(1) by simp
  have h2b: "hwf s2 (xs0 @ [(n1, False)]) (n + n2) ys' fl2"
    using hwf_open_last [OF h2a c1] by simp
  have c2: "n + n2 = 0 \<or> hole_pos s2 (xs0 @ [(n1, False)]) \<notin> set fl2"
    unfolding e2 using nn(2) by simp
  have h2c: "hwf s2 xs0 M ys' fl2"
    using hwf_open_last [OF h2b c2] by (simp add: M)
  define t2 where "t2 = PUT (PUT s2 (HDRP (W pp)) (tag M False))
               (FTRP (PUT s2 (HDRP (W pp)) (tag M False)) (W pp)) (tag M False)"
  define t3 where "t3 = insert_at_front t2 (W pp)"
  have M24: "24 \<le> M" using ba(5) M by linarith
  have nfp: "hole_pos s2 xs0 \<notin> set fl2" unfolding hpp2 by (rule nn(3))
  note ff = fill_free [OF h2c M24 nfp, unfolded hpp2, OF t2_def t3_def]
  have E: "PACK (W n + (W n1 + W n2)) 0 = tag M False"
    unfolding W_add PACK_tag M by (simp add: add_ac)
  have co: "coalesce s (W p) = (t3, W pp)"
    unfolding coalesce_def Let_def
    by (simp add: R1 R2 R3 R4 R5 R6 R7 R8 s1_def [symmetric] N1 s2_def [symmetric] P2 E
        t2_def [symmetric] t3_def [symmetric])
  show "snd (coalesce s (W p)) = W pp" unfolding co by simp
  show "hwf (fst (coalesce s (W p))) (xs0 @ [(M, False)]) 0 ys' (pp # remove1 nx (remove1 pp fl))"
    unfolding co fst_conv fl2_def [symmetric] by (rule ff(1))
  show "same_fields s (fst (coalesce s (W p)))"
    unfolding co fst_conv by (rule same_fields_trans [OF sf02 ff(2)])
  show "free_listp (fst (coalesce s (W p))) = W pp" unfolding co fst_conv by (rule ff(3))
qed


lemma prev_alloc_true:
  assumes h: "hwf s (xs @ [(n, a)]) 0 ys fl" and pa: "xs = [] \<or> snd (last xs)"
  shows "GET_ALLOC s (FTRP s (PREV_BLKP s (W (hole_pos s xs)))) \<noteq> 0
         \<or> PREV_BLKP s (W (hole_pos s xs)) = W (hole_pos s xs)"
proof (cases "xs = []")
  case True
  then show ?thesis using blk_prev_first [of s n a ys fl] h by simp
next
  case False
  then obtain xs0 b where xs: "xs = xs0 @ [b]" by (metis rev_exhaust)
  obtain n1 a1 where b: "b = (n1, a1)" by (cases b)
  have a1: "a1" using pa xs b by simp
  have h': "hwf s ((xs0 @ [(n1, True)]) @ [(n, a)]) 0 ys fl" using h xs b a1 by simp
  have h_prev: "hwf s (xs0 @ [(n1, True)]) 0 ((n, a) # ys) fl"
    using h' by (simp only: hwf_shift)
  have R1: "PREV_BLKP s (W (hole_pos s xs0 + n1)) = W (hole_pos s xs0)" by (rule blk_prev [OF h'])
  have R2: "GET_ALLOC s (FTRP s (W (hole_pos s xs0))) = 1"
    using blk_reads(7) [OF h_prev] by simp
  have e: "hole_pos s xs = hole_pos s xs0 + n1" by (simp add: xs b)
  show ?thesis unfolding e R1 R2 by simp
qed

lemma next_alloc_true:
  assumes h: "hwf s (xs @ [(n, a)]) 0 ys fl" and na: "ys = [] \<or> snd (hd ys)"
  shows "GET_ALLOC s (HDRP (W (hole_pos s xs + n))) = 1"
proof (cases ys)
  case Nil
  then show ?thesis using blk_next_end [of s xs n a fl] h by simp
next
  case (Cons b ys')
  obtain n2 a2 where b: "b = (n2, a2)" by (cases b)
  have a2: "a2" using na Cons b by simp
  have h_next: "hwf s ((xs @ [(n, a)]) @ [(n2, True)]) 0 ys' fl"
    using h Cons b a2 by (simp only: hwf_shift)
  show ?thesis using blk_reads(2) [OF h_next] by simp
qed

lemma fl_ok_cons:
  assumes fo: "fl_ok s (xs @ [b]) 0 ys fl" and nf: "hole_pos s xs \<notin> set fl"
  shows "fl_ok s (xs @ [b]) 0 ys (hole_pos s xs # fl)"
proof (rule fl_okI)
  show "distinct (hole_pos s xs # fl)" using nf fl_okD(1) [OF fo] by simp
  show "(0::nat) = 0 \<or> 24 \<le> (0::nat)" by simp
  fix y assume "y \<in> set (hole_pos s xs # fl)"
  then consider "y = hole_pos s xs" | "y \<in> set fl" by auto
  then show "y \<in> set (blk_pos (first_pos s) (xs @ [b]))
      \<or> y \<in> set (blk_pos (hole_pos s (xs @ [b]) + 0) ys)
      \<or> (y = hole_pos s (xs @ [b]) \<and> 24 \<le> (0::nat))"
  proof cases
    case 1
    then have "y \<in> set (blk_pos (first_pos s) (xs @ [b]))"
      by (simp add: blk_pos_append hole_pos_def)
    then show ?thesis by blast
  next
    case 2
    then show ?thesis using fl_okD(3) [OF fo] by blast
  qed
qed

text \<open>Both neighbours allocated.\<close>

lemma co_A:
  assumes h: "hwf s (xs @ [(n, False)]) 0 ys fl"
    and p: "p = hole_pos s xs" and nf: "p \<notin> set fl"
    and pa: "xs = [] \<or> snd (last xs)" and na: "ys = [] \<or> snd (hd ys)"
  shows "snd (coalesce s (W p)) = W p"
    "hwf (fst (coalesce s (W p))) (xs @ [(n, False)]) 0 ys (p # fl)"
    "same_fields s (fst (coalesce s (W p)))"
    "free_listp (fst (coalesce s (W p))) = W p"
proof -
  have R1: "GET_ALLOC s (FTRP s (PREV_BLKP s (W p))) \<noteq> 0 \<or> PREV_BLKP s (W p) = W p"
    unfolding p by (rule prev_alloc_true [OF h pa])
  have R3: "NEXT_BLKP s (W p) = W (p + n)" using blk_reads(3) [OF h] unfolding p .
  have R4: "GET_ALLOC s (HDRP (W (p + n))) = 1" unfolding p by (rule next_alloc_true [OF h na])
  have co: "coalesce s (W p) = (insert_at_front s (W p), W p)"
    unfolding coalesce_def Let_def using R1 by (simp add: R3 R4)
  have fo: "fl_ok s (xs @ [(n, False)]) 0 ys (p # fl)"
    unfolding p by (rule fl_ok_cons [OF hwfD(4) [OF h]]) (use nf p in simp)
  note hi = hwf_insert [OF h fo]
  show "snd (coalesce s (W p)) = W p" unfolding co by simp
  show "hwf (fst (coalesce s (W p))) (xs @ [(n, False)]) 0 ys (p # fl)"
    unfolding co fst_conv by (rule hi(1))
  show "same_fields s (fst (coalesce s (W p)))" unfolding co fst_conv by (rule hi(2))
  show "free_listp (fst (coalesce s (W p))) = W p" unfolding co fst_conv by (rule hi(3))
qed

text \<open>Only the next block free.\<close>

lemma co_B:
  assumes h: "hwf s (xs @ [(n, False)]) 0 ((n2, False) # ys') fl"
    and p: "p = hole_pos s xs" and nx: "nx = p + n"
    and nf: "p \<notin> set fl" and nin: "nx \<in> set fl"
    and pa: "xs = [] \<or> snd (last xs)"
    and M: "M = n + n2"
  shows "snd (coalesce s (W p)) = W p"
    "hwf (fst (coalesce s (W p))) (xs @ [(M, False)]) 0 ys' (p # remove1 nx fl)"
    "same_fields s (fst (coalesce s (W p)))"
    "free_listp (fst (coalesce s (W p))) = W p"
proof -
  have hn: "hole_pos s (xs @ [(n, False)]) = nx" by (simp add: p nx)
  have h_next: "hwf s ((xs @ [(n, False)]) @ [(n2, False)]) 0 ys' fl"
    using h by (simp only: hwf_shift)
  note ba = blk_arith [OF h, folded p]
  have R1: "GET_ALLOC s (FTRP s (PREV_BLKP s (W p))) \<noteq> 0 \<or> PREV_BLKP s (W p) = W p"
    unfolding p by (rule prev_alloc_true [OF h pa])
  have R3: "NEXT_BLKP s (W p) = W nx" using blk_reads(3) [OF h] unfolding p nx .
  have R4: "GET_ALLOC s (HDRP (W nx)) = 0" using blk_reads(2) [OF h_next] unfolding hn by simp
  have R5: "GET_SIZE s (HDRP (W p)) = W n" using blk_reads(1) [OF h] unfolding p .
  have R7: "GET_SIZE s (HDRP (W nx)) = W n2" using blk_reads(1) [OF h_next] unfolding hn .
  define s1 where "s1 = remove_block s (W nx)"
  define fl1 where "fl1 = remove1 nx fl"
  have h1: "hwf s1 (xs @ [(n, False)]) 0 ((n2, False) # ys') fl1"
    and sf1: "same_fields s s1"
    unfolding s1_def fl1_def using hwf_remove [OF h nin] by blast+
  have hp1: "hole_pos s1 xs = p" using hole_pos_fields [OF sf1] p by simp
  have d: "distinct fl" by (rule hwf_distinct [OF h])
  have nn: "nx \<notin> set fl1" "p \<notin> set fl1"
    unfolding fl1_def using remove1_notin [OF d, of nx] notin_remove1 [OF nf] by blast+
  have h1a: "hwf s1 (xs @ [(n, False)]) n2 ys' fl1"
    using hwf_open_first [OF h1] by simp
  have e1: "hole_pos s1 (xs @ [(n, False)]) = nx" using hp1 by (simp add: nx)
  have c1: "n2 = 0 \<or> hole_pos s1 (xs @ [(n, False)]) \<notin> set fl1"
    unfolding e1 using nn(1) by simp
  have h1b: "hwf s1 xs M ys' fl1"
    using hwf_open_last [OF h1a c1] by (simp add: M)
  define t2 where "t2 = PUT (PUT s1 (HDRP (W p)) (tag M False))
               (FTRP (PUT s1 (HDRP (W p)) (tag M False)) (W p)) (tag M False)"
  define t3 where "t3 = insert_at_front t2 (W p)"
  have M24: "24 \<le> M" using ba(5) M by linarith
  have nfp: "hole_pos s1 xs \<notin> set fl1" unfolding hp1 by (rule nn(2))
  note ff = fill_free [OF h1b M24 nfp, unfolded hp1, OF t2_def t3_def]
  have E: "PACK (W n + W n2) 0 = tag M False"
    unfolding W_add PACK_tag M by simp
  have co: "coalesce s (W p) = (t3, W p)"
    unfolding coalesce_def Let_def using R1
    by (simp add: R3 R4 R5 R7 s1_def [symmetric] E t2_def [symmetric] t3_def [symmetric])
  show "snd (coalesce s (W p)) = W p" unfolding co by simp
  show "hwf (fst (coalesce s (W p))) (xs @ [(M, False)]) 0 ys' (p # remove1 nx fl)"
    unfolding co fst_conv fl1_def [symmetric] by (rule ff(1))
  show "same_fields s (fst (coalesce s (W p)))"
    unfolding co fst_conv by (rule same_fields_trans [OF sf1 ff(2)])
  show "free_listp (fst (coalesce s (W p))) = W p" unfolding co fst_conv by (rule ff(3))
qed

text \<open>Only the previous block free.\<close>

lemma co_C:
  assumes h: "hwf s ((xs0 @ [(n1, False)]) @ [(n, False)]) 0 ys fl"
    and pp: "pp = hole_pos s xs0" and p: "p = pp + n1"
    and nf: "p \<notin> set fl" and pin: "pp \<in> set fl"
    and na: "ys = [] \<or> snd (hd ys)"
    and M: "M = n1 + n"
  shows "snd (coalesce s (W p)) = W pp"
    "hwf (fst (coalesce s (W p))) (xs0 @ [(M, False)]) 0 ys (pp # remove1 pp fl)"
    "same_fields s (fst (coalesce s (W p)))"
    "free_listp (fst (coalesce s (W p))) = W pp"
proof -
  have hp: "hole_pos s (xs0 @ [(n1, False)]) = p" by (simp add: p pp)
  have h_prev: "hwf s (xs0 @ [(n1, False)]) 0 ((n, False) # ys) fl"
    using h by (simp only: hwf_shift)
  note ba = blk_arith [OF h, unfolded hp]
  note bap = blk_arith [OF h_prev, folded pp]
  have lt: "pp < p" "p < 4294967296"
    using bap(5) ba(3,4,5) p by linarith+
  have R1: "PREV_BLKP s (W p) = W pp" using blk_prev [OF h] by (simp add: p pp)
  have R2: "GET_ALLOC s (FTRP s (W pp)) = 0" using blk_reads(7) [OF h_prev] by (simp add: pp)
  have R3: "NEXT_BLKP s (W p) = W (p + n)" using blk_reads(3) [OF h] unfolding hp .
  have R4: "GET_ALLOC s (HDRP (W (p + n))) = 1"
    using next_alloc_true [OF h na] unfolding hp .
  have R5: "GET_SIZE s (HDRP (W p)) = W n" using blk_reads(1) [OF h] unfolding hp .
  have R6: "GET_SIZE s (HDRP (W pp)) = W n1" using blk_reads(1) [OF h_prev] by (simp add: pp)
  have R8: "W pp \<noteq> W p" by (rule W_neq [OF lt])
  define s1 where "s1 = remove_block s (W pp)"
  define fl1 where "fl1 = remove1 pp fl"
  have h1: "hwf s1 ((xs0 @ [(n1, False)]) @ [(n, False)]) 0 ys fl1"
    and sf1: "same_fields s s1"
    unfolding s1_def fl1_def using hwf_remove [OF h pin] by blast+
  have hpp1: "hole_pos s1 xs0 = pp" using hole_pos_fields [OF sf1] pp by simp
  have d: "distinct fl" by (rule hwf_distinct [OF h])
  have nn: "pp \<notin> set fl1" "p \<notin> set fl1"
    unfolding fl1_def using remove1_notin [OF d, of pp] notin_remove1 [OF nf] by blast+
  have h1a: "hwf s1 (xs0 @ [(n1, False)]) n ys fl1"
    using hwf_open_last [OF h1] by simp
  have e2: "hole_pos s1 (xs0 @ [(n1, False)]) = p" using hpp1 by (simp add: p)
  have c2: "n = 0 \<or> hole_pos s1 (xs0 @ [(n1, False)]) \<notin> set fl1"
    unfolding e2 using nn(2) by simp
  have h1b: "hwf s1 xs0 M ys fl1"
    using hwf_open_last [OF h1a c2] by (simp add: M)
  define t2 where "t2 = PUT (PUT s1 (HDRP (W pp)) (tag M False))
               (FTRP (PUT s1 (HDRP (W pp)) (tag M False)) (W pp)) (tag M False)"
  define t3 where "t3 = insert_at_front t2 (W pp)"
  have M24: "24 \<le> M" using ba(5) M by linarith
  have nfp: "hole_pos s1 xs0 \<notin> set fl1" unfolding hpp1 by (rule nn(1))
  note ff = fill_free [OF h1b M24 nfp, unfolded hpp1, OF t2_def t3_def]
  have E: "PACK (W n + W n1) 0 = tag M False"
    unfolding W_add PACK_tag M by (simp add: add_ac)
  have co: "coalesce s (W p) = (t3, W pp)"
    unfolding coalesce_def Let_def
    by (simp add: R1 R2 R3 R4 R5 R6 R8 s1_def [symmetric] E t2_def [symmetric] t3_def [symmetric])
  show "snd (coalesce s (W p)) = W pp" unfolding co by simp
  show "hwf (fst (coalesce s (W p))) (xs0 @ [(M, False)]) 0 ys (pp # remove1 pp fl)"
    unfolding co fst_conv fl1_def [symmetric] by (rule ff(1))
  show "same_fields s (fst (coalesce s (W p)))"
    unfolding co fst_conv by (rule same_fields_trans [OF sf1 ff(2)])
  show "free_listp (fst (coalesce s (W p))) = W pp" unfolding co fst_conv by (rule ff(3))
qed

text \<open>
  Whether the block before, and the block after, a given place is free; a heap with no
  hole is well formed when the free list holds exactly its free blocks and no two free
  blocks are neighbours.
\<close>

definition prev_free :: "blk list \<Rightarrow> bool" where
  "prev_free xs \<longleftrightarrow> xs \<noteq> [] \<and> \<not> snd (last xs)"

definition next_free :: "blk list \<Rightarrow> bool" where
  "next_free ys \<longleftrightarrow> ys \<noteq> [] \<and> \<not> snd (hd ys)"

definition heap_inv :: "state \<Rightarrow> blk list \<Rightarrow> nat list \<Rightarrow> bool" where
  "heap_inv s bs fl \<longleftrightarrow> hwf s bs 0 [] fl \<and> set fl = set (free_pos (first_pos s) bs)
     \<and> no_adj True bs"

lemma no_adj_append:
  "no_adj pa (xs @ ys) = (no_adj pa xs \<and> no_adj (if xs = [] then pa else snd (last xs)) ys)"
  by (induction xs arbitrary: pa) auto

lemma no_adj_weaken: "no_adj False ys \<Longrightarrow> no_adj pa ys"
  by (cases ys) auto

lemma free_pos_bounds:
  assumes "shape bs" "y \<in> set (free_pos q bs)"
  shows "q \<le> y \<and> y + 24 \<le> q + total_size bs"
  using blk_pos_bounds [OF assms(1), of y q] free_pos_sub [of q bs] assms(2) by blast

text \<open>The coalescer, in one statement for its four cases.\<close>

text \<open>
  The result of coalescing the block of size \<open>n\<close> at position \<open>p\<close> between the
  blocks \<open>xs\<close> and \<open>ys\<close>: the blocks that remain in front, the size taken from the
  previous and from the next block, the blocks that remain behind, and the free list
  with the merged block in front and the absorbed neighbours removed.
\<close>

definition co_xs :: "blk list \<Rightarrow> blk list" where
  "co_xs xs = (if prev_free xs then butlast xs else xs)"

definition co_n1 :: "blk list \<Rightarrow> nat" where
  "co_n1 xs = (if prev_free xs then fst (last xs) else 0)"

definition co_ys :: "blk list \<Rightarrow> blk list" where
  "co_ys ys = (if next_free ys then tl ys else ys)"

definition co_n2 :: "blk list \<Rightarrow> nat" where
  "co_n2 ys = (if next_free ys then fst (hd ys) else 0)"

definition co_fl :: "blk list \<Rightarrow> nat \<Rightarrow> nat \<Rightarrow> blk list \<Rightarrow> nat list \<Rightarrow> nat list" where
  "co_fl xs p n ys fl =
     (p - co_n1 xs) # (if next_free ys then remove1 (p + n) else id)
                        ((if prev_free xs then remove1 (p - co_n1 xs) else id) fl)"

lemma coalesce_hwf:
  assumes h: "hwf s (xs @ [(n, False)]) 0 ys fl"
    and p: "p = hole_pos s xs" and nf: "p \<notin> set fl"
    and inl: "set (free_pos (first_pos s) xs) \<subseteq> set fl"
    and inr: "set (free_pos (p + n) ys) \<subseteq> set fl"
  shows "snd (coalesce s (W p)) = W (p - co_n1 xs)"
    "hwf (fst (coalesce s (W p))) (co_xs xs @ [(co_n1 xs + n + co_n2 ys, False)]) 0 (co_ys ys)
        (co_fl xs p n ys fl)"
    "same_fields s (fst (coalesce s (W p)))"
    "free_listp (fst (coalesce s (W p))) = W (p - co_n1 xs)"
proof -
  let ?s' = "fst (coalesce s (W p))"
  have "snd (coalesce s (W p)) = W (p - co_n1 xs)
    \<and> hwf ?s' (co_xs xs @ [(co_n1 xs + n + co_n2 ys, False)]) 0 (co_ys ys) (co_fl xs p n ys fl)
    \<and> same_fields s ?s' \<and> free_listp ?s' = W (p - co_n1 xs)"
  proof (cases "prev_free xs")
    case pf: True
    then obtain xs0 b where xs: "xs = xs0 @ [b]" unfolding prev_free_def by (metis rev_exhaust)
    obtain n1 a1 where b: "b = (n1, a1)" by (cases b)
    have a1: "\<not> a1" using pf xs b by (simp add: prev_free_def)
    have xs': "xs = xs0 @ [(n1, False)]" using xs b a1 by simp
    have h': "hwf s ((xs0 @ [(n1, False)]) @ [(n, False)]) 0 ys fl" using h xs' by simp
    define pp where "pp = hole_pos s xs0"
    have p': "p = pp + n1" using p xs' pp_def by simp
    have pin: "pp \<in> set fl"
      using inl unfolding xs' pp_def by (auto simp: free_pos_append hole_pos_def)
    have c: "co_xs xs = xs0" "co_n1 xs = n1" "p - n1 = pp"
      using pf xs' p' by (simp_all add: co_xs_def co_n1_def)
    show ?thesis
    proof (cases "next_free ys")
      case nf': True
      then obtain b2 ys' where ys: "ys = b2 # ys'" unfolding next_free_def by (cases ys) auto
      obtain n2 a2 where b2: "b2 = (n2, a2)" by (cases b2)
      have a2: "\<not> a2" using nf' ys b2 by (simp add: next_free_def)
      have ys': "ys = (n2, False) # ys'" using ys b2 a2 by simp
      have h'': "hwf s ((xs0 @ [(n1, False)]) @ [(n, False)]) 0 ((n2, False) # ys') fl"
        using h' ys' by simp
      have nin: "p + n \<in> set fl" using inr unfolding ys' by auto
      have c2: "co_ys ys = ys'" "co_n2 ys = n2"
        using nf' ys' by (simp_all add: co_ys_def co_n2_def)
      have cf: "co_fl xs p n ys fl = pp # remove1 (p + n) (remove1 pp fl)"
        using pf nf' c by (simp add: co_fl_def)
      show ?thesis
        unfolding c c2 cf
        using co_D [OF h'' pp_def p' refl nf pin nin refl] by (simp add: add.assoc)
    next
      case nf': False
      then have na: "ys = [] \<or> snd (hd ys)" by (simp add: next_free_def)
      have c2: "co_ys ys = ys" "co_n2 ys = 0"
        using nf' by (simp_all add: co_ys_def co_n2_def)
      have cf: "co_fl xs p n ys fl = pp # remove1 pp fl"
        using pf nf' c by (simp add: co_fl_def)
      show ?thesis
        unfolding c c2 cf
        using co_C [OF h' pp_def p' nf pin na refl] by simp
    qed
  next
    case pf: False
    then have pa: "xs = [] \<or> snd (last xs)" by (simp add: prev_free_def)
    have c: "co_xs xs = xs" "co_n1 xs = 0"
      using pf by (simp_all add: co_xs_def co_n1_def)
    show ?thesis
    proof (cases "next_free ys")
      case nf': True
      then obtain b2 ys' where ys: "ys = b2 # ys'" unfolding next_free_def by (cases ys) auto
      obtain n2 a2 where b2: "b2 = (n2, a2)" by (cases b2)
      have a2: "\<not> a2" using nf' ys b2 by (simp add: next_free_def)
      have ys': "ys = (n2, False) # ys'" using ys b2 a2 by simp
      have h'': "hwf s (xs @ [(n, False)]) 0 ((n2, False) # ys') fl"
        using h ys' by simp
      have nin: "p + n \<in> set fl" using inr unfolding ys' by auto
      have c2: "co_ys ys = ys'" "co_n2 ys = n2"
        using nf' ys' by (simp_all add: co_ys_def co_n2_def)
      have cf: "co_fl xs p n ys fl = p # remove1 (p + n) fl"
        using pf nf' c by (simp add: co_fl_def)
      show ?thesis
        unfolding c c2 cf
        using co_B [OF h'' p refl nf nin pa refl] by simp
    next
      case nf': False
      then have na: "ys = [] \<or> snd (hd ys)" by (simp add: next_free_def)
      have c2: "co_ys ys = ys" "co_n2 ys = 0"
        using nf' by (simp_all add: co_ys_def co_n2_def)
      have cf: "co_fl xs p n ys fl = p # fl"
        using pf nf' c by (simp add: co_fl_def)
      show ?thesis
        unfolding c c2 cf
        using co_A [OF h p nf pa na] by simp
    qed
  qed
  then show "snd (coalesce s (W p)) = W (p - co_n1 xs)"
    "hwf ?s' (co_xs xs @ [(co_n1 xs + n + co_n2 ys, False)]) 0 (co_ys ys) (co_fl xs p n ys fl)"
    "same_fields s ?s'" "free_listp ?s' = W (p - co_n1 xs)"
    by blast+
qed

lemma co_cases [case_names AA AF FA FF]:
  obtains (AA) "\<not> prev_free xs" "\<not> next_free ys"
    | (AF) n2 ys' where "\<not> prev_free xs" "ys = (n2, False) # ys'"
    | (FA) xs0 n1 where "xs = xs0 @ [(n1, False)]" "\<not> next_free ys"
    | (FF) xs0 n1 n2 ys' where "xs = xs0 @ [(n1, False)]" "ys = (n2, False) # ys'"
proof -
  have xs: "\<exists>xs0 n1. xs = xs0 @ [(n1, False)]" if "prev_free xs"
  proof -
    from that obtain xs0 b where "xs = xs0 @ [b]" unfolding prev_free_def by (metis rev_exhaust)
    moreover obtain n1 a1 where "b = (n1, a1)" by (cases b)
    ultimately show ?thesis using that by (auto simp: prev_free_def)
  qed
  have ys: "\<exists>n2 ys'. ys = (n2, False) # ys'" if "next_free ys"
    using that unfolding next_free_def by (cases ys) auto
  show ?thesis using xs ys AA AF FA FF by blast
qed

lemma co_simps [simp]:
  "prev_free (xs0 @ [(n1, a1)]) = (\<not> a1)" "next_free ((n2, a2) # ys') = (\<not> a2)"
  "\<not> prev_free []" "\<not> next_free []"
  "co_xs (xs0 @ [(n1, False)]) = xs0" "co_n1 (xs0 @ [(n1, False)]) = n1"
  "co_ys ((n2, False) # ys') = ys'" "co_n2 ((n2, False) # ys') = n2"
  "\<not> prev_free xs \<Longrightarrow> co_xs xs = xs" "\<not> prev_free xs \<Longrightarrow> co_n1 xs = 0"
  "\<not> next_free ys \<Longrightarrow> co_ys ys = ys" "\<not> next_free ys \<Longrightarrow> co_n2 ys = 0"
  by (auto simp: prev_free_def next_free_def co_xs_def co_n1_def co_ys_def co_n2_def)

lemma not_prev_free: "\<not> prev_free xs \<Longrightarrow> (if xs = [] then True else snd (last xs))"
  by (auto simp: prev_free_def)

lemma no_adj_next: "\<not> next_free ys \<Longrightarrow> no_adj True ys \<Longrightarrow> no_adj False ys"
  by (cases ys) (auto simp: next_free_def)

lemma co_no_adj:
  assumes "no_adj True (xs @ (n, True) # ys)"
  shows "no_adj True (co_xs xs @ (co_n1 xs + n + co_n2 ys, False) # co_ys ys)"
proof (cases rule: co_cases [of xs ys])
  case AA
  then show ?thesis using assms not_prev_free [OF AA(1)] no_adj_next [OF AA(2)]
    by (simp add: no_adj_append)
next
  case (AF n2 ys')
  then show ?thesis using assms not_prev_free [OF AF(1)]
    by (simp add: no_adj_append)
next
  case (FA xs0 n1)
  then show ?thesis using assms no_adj_next [OF FA(2)]
    by (simp add: no_adj_append)
next
  case (FF xs0 n1 n2 ys')
  then show ?thesis using assms
    by (simp add: no_adj_append)
qed

lemma co_alloc:
  "alloc_pos f (co_xs xs @ (co_n1 xs + n + co_n2 ys, False) # co_ys ys)
   = alloc_pos f xs @ alloc_pos (f + total_size xs + n) ys"
proof (cases rule: co_cases [of xs ys])
  case AA
  then show ?thesis by (simp add: alloc_pos_append)
next
  case (AF n2 ys')
  then show ?thesis by (simp add: alloc_pos_append add.assoc)
next
  case (FA xs0 n1)
  then show ?thesis by (simp add: alloc_pos_append add.assoc)
next
  case (FF xs0 n1 n2 ys')
  then show ?thesis by (simp add: alloc_pos_append add.assoc)
qed

lemma co_exact:
  assumes sh: "shape xs" "shape ys" and d: "distinct fl"
    and ex: "set fl = set (free_pos f xs) \<union> set (free_pos (f + total_size xs + n) ys)"
    and n: "24 \<le> n"
  shows "set (co_fl xs (f + total_size xs) n ys fl)
         = set (free_pos f (co_xs xs @ (co_n1 xs + n + co_n2 ys, False) # co_ys ys))"
proof -
  let ?p = "f + total_size xs"
  have bl: "y + 24 \<le> ?p" if "y \<in> set (free_pos f xs)" for y
    using free_pos_bounds [OF sh(1) that] by simp
  have br: "?p + n \<le> y" if "y \<in> set (free_pos (?p + n) ys)" for y
    using free_pos_bounds [OF sh(2) that] by simp
  show ?thesis
  proof (cases rule: co_cases [of xs ys])
    case AA
    then show ?thesis using ex by (simp add: co_fl_def free_pos_append)
  next
    case (AF n2 ys')
    have sh': "shape ys'" using sh(2) AF(2) by simp
    have a: "?p + n \<notin> set (free_pos f xs)" using bl [of "?p + n"] by auto
    have b: "?p + n \<notin> set (free_pos (?p + n + n2) ys')"
    proof
      assume "?p + n \<in> set (free_pos (?p + n + n2) ys')"
      then have "?p + n + n2 \<le> ?p + n" using free_pos_bounds [OF sh'] by blast
      moreover have "24 \<le> n2" using sh(2) AF(2) by (simp add: blk_ok_def)
      ultimately show False by simp
    qed
    have "set fl = insert (?p + n) (set (free_pos f xs) \<union> set (free_pos (?p + n + n2) ys'))"
      using ex AF(2) by simp
    then have "set (remove1 (?p + n) fl) = set (free_pos f xs) \<union> set (free_pos (?p + n + n2) ys')"
      using d a b by auto
    then show ?thesis using AF by (simp add: co_fl_def free_pos_append add.assoc)
  next
    case (FA xs0 n1)
    have e: "set fl = insert (f + total_size xs0)
        (set (free_pos f xs0) \<union> set (free_pos (f + total_size xs0 + n1 + n) ys))"
      using ex FA(1) by (simp add: free_pos_append add.assoc)
    have "insert (f + total_size xs0) (set (remove1 (f + total_size xs0) fl)) = set fl"
      using d e by auto
    then show ?thesis using FA e by (simp add: co_fl_def free_pos_append add.assoc)
  next
    case (FF xs0 n1 n2 ys')
    have sh': "shape ys'" using sh(2) FF(2) by simp
    let ?pp = "f + total_size xs0"
    have p: "?p = ?pp + n1" using FF(1) by simp
    have n1: "24 \<le> n1" using sh(1) FF(1) by (simp add: blk_ok_def)
    have a: "?p + n \<notin> set (free_pos f xs0)"
    proof
      assume "?p + n \<in> set (free_pos f xs0)"
      then have "?p + n \<in> set (free_pos f xs)" using FF(1) by (simp add: free_pos_append)
      then show False using bl [of "?p + n"] by simp
    qed
    have b: "?p + n \<notin> set (free_pos (?p + n + n2) ys')"
    proof
      assume "?p + n \<in> set (free_pos (?p + n + n2) ys')"
      then have "?p + n + n2 \<le> ?p + n" using free_pos_bounds [OF sh'] by blast
      moreover have "24 \<le> n2" using sh(2) FF(2) by (simp add: blk_ok_def)
      ultimately show False by simp
    qed
    have c: "?p + n \<noteq> ?pp" using p n by simp
    have e: "set fl = insert ?pp (insert (?p + n)
        (set (free_pos f xs0) \<union> set (free_pos (?p + n + n2) ys')))"
      using ex FF by (auto simp: free_pos_append add.assoc)
    have "insert ?pp (set (remove1 (?p + n) (remove1 ?pp fl)))
        = insert ?pp (set (free_pos f xs0) \<union> set (free_pos (?p + n + n2) ys'))"
      using d e a b c by auto
    then show ?thesis using FF p by (simp add: co_fl_def free_pos_append add.assoc)
  qed
qed

section \<open>Freeing a block of a well-formed heap\<close>

lemma heap_invD:
  assumes "heap_inv s bs fl"
  shows "hwf s bs 0 [] fl" "set fl = set (free_pos (first_pos s) bs)" "no_adj True bs"
  using assms unfolding heap_inv_def by blast+

lemma hole_nonzero:
  assumes h: "hwf s xs N ys fl"
  shows "W (hole_pos s xs) \<noteq> 0" "48 \<le> hole_pos s xs" "hole_pos s xs < 4294967296"
proof -
  note hd = hwfD [OF h]
  note ar = seg_arith [OF hd(1,2)]
  show a: "48 \<le> hole_pos s xs" using ar(6,13) by linarith
  show b: "hole_pos s xs < 4294967296" using ar(7,8) by linarith
  show "W (hole_pos s xs) \<noteq> 0" using W_eq_0 [OF b] a by simp
qed

text \<open>Freeing the hole: a region with a valid size in its header word.\<close>

lemma free_hole:
  assumes h: "hwf s xs N ys fl" and N: "24 \<le> N" and p: "p = hole_pos s xs"
    and nf: "p \<notin> set fl"
    and sz: "GET_SIZE s (HDRP (W p)) = W N"
    and ex: "set fl = set (free_pos (first_pos s) xs) \<union> set (free_pos (p + N) ys)"
    and na: "no_adj True (xs @ (N, True) # ys)"
  shows "heap_inv (mm_free s (W p))
           (co_xs xs @ (co_n1 xs + N + co_n2 ys, False) # co_ys ys) (co_fl xs p N ys fl)"
    "same_fields s (mm_free s (W p))"
    "free_listp (mm_free s (W p)) = W (p - co_n1 xs)"
proof -
  note hd = hwfD [OF h]
  note ar = seg_arith [OF hd(1,2)]
  have nz: "W p \<noteq> 0" unfolding p by (rule hole_nonzero(1) [OF h])
  define t where "t = PUT (PUT s (HDRP (W p)) (tag N False))
      (FTRP (PUT s (HDRP (W p)) (tag N False)) (W p)) (tag N False)"
  have bo: "blk_ok (N, False)" using N ar(3) by (simp add: blk_ok_def)
  note pt = hwf_put_tags [OF h bo le_refl _ t_def [unfolded p]]
  have ht: "hwf t (xs @ [(N, False)]) 0 ys fl" using pt(1) by simp
  have sft: "same_fields s t" using pt(2) by simp
  have mf: "mm_free s (W p) = fst (coalesce t (W p))"
    unfolding mm_free_def Let_def sz PACK_tag using nz by (simp add: t_def)
  have pt': "p = hole_pos t xs" using hole_pos_fields [OF sft] p by simp
  have fs: "first_pos t = first_pos s" using sft by simp
  have inl: "set (free_pos (first_pos t) xs) \<subseteq> set fl" unfolding fs using ex by blast
  have inr: "set (free_pos (p + N) ys) \<subseteq> set fl" using ex by blast
  note co = coalesce_hwf [OF ht pt' nf inl inr]
  let ?s' = "fst (coalesce t (W p))"
  have sf: "same_fields s ?s'" by (rule same_fields_trans [OF sft co(3)])
  show "same_fields s (mm_free s (W p))" unfolding mf by (rule sf)
  show "free_listp (mm_free s (W p)) = W (p - co_n1 xs)" unfolding mf by (rule co(4))
  have fs': "first_pos ?s' = first_pos s" using sf by simp
  have H: "hwf ?s' (co_xs xs @ (co_n1 xs + N + co_n2 ys, False) # co_ys ys) 0 []
      (co_fl xs p N ys fl)"
    using co(2) hwf_flat [of ?s' "co_xs xs @ [(co_n1 xs + N + co_n2 ys, False)]" "co_ys ys"]
    by simp
  have pe: "p = first_pos s + total_size xs" using p by (simp add: hole_pos_def)
  have d: "distinct fl" by (rule hwf_distinct [OF h])
  have E0: "set (co_fl xs (first_pos s + total_size xs) N ys fl)
      = set (free_pos (first_pos s) (co_xs xs @ (co_n1 xs + N + co_n2 ys, False) # co_ys ys))"
    by (rule co_exact [OF ar(11,12) d _ N]) (use ex pe in simp)
  have E: "set (co_fl xs p N ys fl)
      = set (free_pos (first_pos ?s') (co_xs xs @ (co_n1 xs + N + co_n2 ys, False) # co_ys ys))"
    unfolding fs' using E0 unfolding pe .
  have A: "no_adj True (co_xs xs @ (co_n1 xs + N + co_n2 ys, False) # co_ys ys)"
    by (rule co_no_adj [OF na])
  show "heap_inv (mm_free s (W p))
           (co_xs xs @ (co_n1 xs + N + co_n2 ys, False) # co_ys ys) (co_fl xs p N ys fl)"
    unfolding mf heap_inv_def using H E A by blast
qed

lemma alloc_not_listed:
  assumes hi: "heap_inv s (xs @ (n, True) # ys) fl"
  shows "hole_pos s xs \<notin> set fl"
    "set fl = set (free_pos (first_pos s) xs) \<union> set (free_pos (hole_pos s xs + n) ys)"
proof -
  note hv = heap_invD [OF hi]
  note hd = hwfD [OF hv(1)]
  note ar = seg_arith [OF hd(1,2)]
  have sh: "shape xs" "shape ys" "24 \<le> n" using ar(11) by (simp_all add: blk_ok_def)
  show e: "set fl = set (free_pos (first_pos s) xs) \<union> set (free_pos (hole_pos s xs + n) ys)"
    using hv(2) by (simp add: free_pos_append hole_pos_def)
  have a: "hole_pos s xs \<notin> set (free_pos (first_pos s) xs)"
    using free_pos_bounds [OF sh(1), of "hole_pos s xs" "first_pos s"]
    by (auto simp: hole_pos_def)
  have b: "hole_pos s xs \<notin> set (free_pos (hole_pos s xs + n) ys)"
    using free_pos_bounds [OF sh(2), of "hole_pos s xs" "hole_pos s xs + n"] sh(3)
    by auto
  show "hole_pos s xs \<notin> set fl" unfolding e using a b by blast
qed

lemma heap_inv_block:
  assumes hi: "heap_inv s (xs @ (n, a) # ys) fl"
  shows "hwf s (xs @ [(n, a)]) 0 ys fl"
  using heap_invD(1) [OF hi] hwf_flat [of s "xs @ [(n, a)]" ys fl] by simp

text \<open>\<^verbatim>\<open>mm_free\<close> of an allocated block of a well-formed heap.\<close>

lemma free_inv:
  assumes hi: "heap_inv s (xs @ (n, True) # ys) fl" and p: "p = hole_pos s xs"
  shows "heap_inv (mm_free s (W p))
           (co_xs xs @ (co_n1 xs + n + co_n2 ys, False) # co_ys ys) (co_fl xs p n ys fl)"
    "same_fields s (mm_free s (W p))"
    "free_listp (mm_free s (W p)) = W (p - co_n1 xs)"
proof -
  have hb: "hwf s (xs @ [(n, True)]) 0 ys fl" by (rule heap_inv_block [OF hi])
  have h: "hwf s xs n ys fl" using hwf_open_last [OF hb] by simp
  note ba = blk_arith [OF hb]
  note al = alloc_not_listed [OF hi, folded p]
  have sz: "GET_SIZE s (HDRP (W p)) = W n" using blk_reads(1) [OF hb] unfolding p .
  note fh = free_hole [OF h ba(5) p al(1) sz al(2) heap_invD(3) [OF hi]]
  show "heap_inv (mm_free s (W p))
           (co_xs xs @ (co_n1 xs + n + co_n2 ys, False) # co_ys ys) (co_fl xs p n ys fl)"
    "same_fields s (mm_free s (W p))"
    "free_listp (mm_free s (W p)) = W (p - co_n1 xs)"
    by (rule fh)+
qed

lemmas inv_eval = heap_inv_def hwf_def base_ok_def seg_def fl_ok_def shape_def blk_ok_def
  rd_def W_def tag_def lo_of_def first_pos_def sentinel_def brk_of_def hole_pos_def total_size_def
  link_addrs_def

text \<open>What the coalescer reads about the neighbours of a block.\<close>

lemma neighbour_reads:
  assumes h: "hwf s (xs @ [(n, a)]) 0 ys fl" and p: "p = hole_pos s xs"
  shows "(GET_ALLOC s (FTRP s (PREV_BLKP s (W p))) = 0 \<and> PREV_BLKP s (W p) \<noteq> W p)
           \<longleftrightarrow> prev_free xs"
    "prev_free xs \<Longrightarrow> PREV_BLKP s (W p) = W (p - co_n1 xs)"
    "prev_free xs \<Longrightarrow> GET_SIZE s (HDRP (PREV_BLKP s (W p))) = W (co_n1 xs)"
    "co_n1 xs \<le> p"
    "NEXT_BLKP s (W p) = W (p + n)"
    "GET_ALLOC s (HDRP (NEXT_BLKP s (W p))) = 0 \<longleftrightarrow> next_free ys"
    "next_free ys \<Longrightarrow> GET_SIZE s (HDRP (NEXT_BLKP s (W p))) = W (co_n2 ys)"
    "GET_SIZE s (HDRP (W p)) = W n"
    "p + n + co_n2 ys \<le> brk_of s"
proof -
  note ba = blk_arith [OF h, folded p]
  show N: "NEXT_BLKP s (W p) = W (p + n)" using blk_reads(3) [OF h] unfolding p .
  show "GET_SIZE s (HDRP (W p)) = W n" using blk_reads(1) [OF h] unfolding p .
  have P: "((GET_ALLOC s (FTRP s (PREV_BLKP s (W p))) = 0 \<and> PREV_BLKP s (W p) \<noteq> W p)
           \<longleftrightarrow> prev_free xs)
      \<and> (prev_free xs \<longrightarrow> PREV_BLKP s (W p) = W (p - co_n1 xs)
            \<and> GET_SIZE s (HDRP (PREV_BLKP s (W p))) = W (co_n1 xs))
      \<and> co_n1 xs \<le> p"
  proof (cases "prev_free xs")
    case False
    then have pa: "xs = [] \<or> snd (last xs)" by (simp add: prev_free_def)
    show ?thesis using prev_alloc_true [OF h pa] False unfolding p by auto
  next
    case True
    then obtain xs0 b where "xs = xs0 @ [b]" unfolding prev_free_def by (metis rev_exhaust)
    moreover obtain n1 a1 where "b = (n1, a1)" by (cases b)
    ultimately have xs: "xs = xs0 @ [(n1, False)]" using True by (auto simp: prev_free_def)
    have h': "hwf s ((xs0 @ [(n1, False)]) @ [(n, a)]) 0 ys fl" using h xs by simp
    have h_prev: "hwf s (xs0 @ [(n1, False)]) 0 ((n, a) # ys) fl"
      using h' by (simp only: hwf_shift)
    define pp where "pp = hole_pos s xs0"
    have p': "p = pp + n1" using p xs pp_def by simp
    note bap = blk_arith [OF h_prev, folded pp_def]
    have lt: "pp < p" "p < 4294967296" using bap(5) ba(3,4,5) p' by linarith+
    have R1: "PREV_BLKP s (W p) = W pp" using blk_prev [OF h'] by (simp add: p' pp_def)
    have R2: "GET_ALLOC s (FTRP s (W pp)) = 0"
      using blk_reads(7) [OF h_prev] by (simp add: pp_def)
    have R6: "GET_SIZE s (HDRP (W pp)) = W n1"
      using blk_reads(1) [OF h_prev] by (simp add: pp_def)
    have R8: "W pp \<noteq> W p" by (rule W_neq [OF lt])
    have c: "co_n1 xs = n1" "p - n1 = pp" using xs p' by simp_all
    have le: "n1 \<le> p" using p' by simp
    show ?thesis using True R2 R6 R8 le unfolding R1 c by simp
  qed
  then show "(GET_ALLOC s (FTRP s (PREV_BLKP s (W p))) = 0 \<and> PREV_BLKP s (W p) \<noteq> W p)
           \<longleftrightarrow> prev_free xs"
    "prev_free xs \<Longrightarrow> PREV_BLKP s (W p) = W (p - co_n1 xs)"
    "prev_free xs \<Longrightarrow> GET_SIZE s (HDRP (PREV_BLKP s (W p))) = W (co_n1 xs)"
    "co_n1 xs \<le> p"
    by blast+
  have Q: "(GET_ALLOC s (HDRP (W (p + n))) = 0 \<longleftrightarrow> next_free ys)
      \<and> (next_free ys \<longrightarrow> GET_SIZE s (HDRP (W (p + n))) = W (co_n2 ys))
      \<and> p + n + co_n2 ys \<le> brk_of s"
  proof (cases "next_free ys")
    case False
    then have na: "ys = [] \<or> snd (hd ys)" by (simp add: next_free_def)
    show ?thesis using next_alloc_true [OF h na] False ba(3) unfolding p by simp
  next
    case True
    then obtain n2 ys' where ys: "ys = (n2, False) # ys'"
      unfolding next_free_def by (cases ys) auto
    have h_next: "hwf s ((xs @ [(n, a)]) @ [(n2, False)]) 0 ys' fl"
      using h ys by (simp only: hwf_shift)
    have hn: "hole_pos s (xs @ [(n, a)]) = p + n" by (simp add: p)
    note ban = blk_arith [OF h_next, unfolded hn]
    have R4: "GET_ALLOC s (HDRP (W (p + n))) = 0"
      using blk_reads(2) [OF h_next] unfolding hn by simp
    have R7: "GET_SIZE s (HDRP (W (p + n))) = W n2"
      using blk_reads(1) [OF h_next] unfolding hn .
    show ?thesis using True R4 R7 ban(3) ys by simp
  qed
  then show "GET_ALLOC s (HDRP (NEXT_BLKP s (W p))) = 0 \<longleftrightarrow> next_free ys"
    "next_free ys \<Longrightarrow> GET_SIZE s (HDRP (NEXT_BLKP s (W p))) = W (co_n2 ys)"
    "p + n + co_n2 ys \<le> brk_of s"
    unfolding N by blast+
qed

lemma co_n_zero [simp]: "\<not> prev_free xs \<Longrightarrow> co_n1 xs = 0" "\<not> next_free ys \<Longrightarrow> co_n2 ys = 0"
  by simp_all

text \<open>The merged block as the macros see it afterwards.\<close>

lemma head_reads:
  assumes h: "hwf s' (xs' @ [(M, a)]) 0 ys' (r # fl')" and r: "r = hole_pos s' xs'"
    and fp: "free_listp s' = W r"
  shows "GET s' (HDRP (W r)) = tag M a" "GET s' (FTRP s' (W r)) = tag M a"
    "PREV_FREEP s' (W r) = 0" "unat (W r) = r" "GET_SIZE s' (HDRP (W r)) = W M"
    "M < 4294967296" "unat (W M) = M"
proof -
  note ba = blk_arith [OF h, folded r]
  show "GET s' (HDRP (W r)) = tag M a" using blk_reads(5) [OF h] unfolding r .
  show "GET s' (FTRP s' (W r)) = tag M a" using blk_reads(6) [OF h] unfolding r .
  show "GET_SIZE s' (HDRP (W r)) = W M" using blk_reads(1) [OF h] unfolding r .
  have "links (mem s') (sentinel s') (free_listp s') 0 (r # fl')" by (rule hwfD(3) [OF h])
  then show "PREV_FREEP s' (W r) = 0" by (simp add: PREV_FREEP_def GET_W)
  show "unat (W r) = r" by (rule unat_W) (use ba(3,4,5) in linarith)
  show M: "M < 4294967296" using ba(3,4) by linarith
  show "unat (W M) = M" by (rule unat_W [OF M])
qed

lemma co_hole_pos: "hole_pos s xs = hole_pos s (co_xs xs) + co_n1 xs"
proof (cases "prev_free xs")
  case True
  then obtain xs0 b where "xs = xs0 @ [b]" unfolding prev_free_def by (metis rev_exhaust)
  moreover obtain n1 a1 where "b = (n1, a1)" by (cases b)
  ultimately have xs: "xs = xs0 @ [(n1, False)]" using True by (auto simp: prev_free_def)
  show ?thesis unfolding xs by simp
next
  case False
  then show ?thesis by simp
qed


lemma co_n1_le: "shape xs \<Longrightarrow> co_n1 xs \<le> total_size xs"
proof (cases "prev_free xs")
  case True
  then obtain xs0 b where "xs = xs0 @ [b]" unfolding prev_free_def by (metis rev_exhaust)
  moreover obtain n1 a1 where "b = (n1, a1)" by (cases b)
  ultimately have xs: "xs = xs0 @ [(n1, False)]" using True by (auto simp: prev_free_def)
  show ?thesis unfolding xs by simp
next
  case False
  then show ?thesis by simp
qed

text \<open>What \<^verbatim>\<open>mm_free\<close> does to an allocated block of a well-formed heap.\<close>

lemma free_effects:
  assumes hi: "heap_inv s (xs @ (n, True) # ys) fl" and bp: "bp = W (hole_pos s xs)"
  shows "GET_SIZE s (HDRP bp) = W n" "GET_ALLOC s (HDRP bp) = 1"
    "GET_ALLOC (mm_free s bp) (HDRP (free_listp (mm_free s bp))) = 0"
    "GET (mm_free s bp) (FTRP (mm_free s bp) (free_listp (mm_free s bp)))
       = GET (mm_free s bp) (HDRP (free_listp (mm_free s bp)))"
    "unat (free_listp (mm_free s bp)) \<le> unat bp"
    "unat bp + n \<le> unat (free_listp (mm_free s bp))
        + unat (GET_SIZE (mm_free s bp) (HDRP (free_listp (mm_free s bp))))"
    "PREV_FREEP (mm_free s bp) (free_listp (mm_free s bp)) = 0"
    "heap_inv (mm_free s bp) (co_xs xs @ (co_n1 xs + n + co_n2 ys, False) # co_ys ys)
        (co_fl xs (hole_pos s xs) n ys fl)"
    "alloc_pos (first_pos (mm_free s bp))
        (co_xs xs @ (co_n1 xs + n + co_n2 ys, False) # co_ys ys)
      = alloc_pos (first_pos s) xs @ alloc_pos (hole_pos s xs + n) ys"
proof -
  define p where "p = hole_pos s xs"
  define s' where "s' = mm_free s bp"
  define M where "M = co_n1 xs + n + co_n2 ys"
  define r where "r = p - co_n1 xs"
  have bp': "bp = W p" using bp p_def by simp
  have hb: "hwf s (xs @ [(n, True)]) 0 ys fl" by (rule heap_inv_block [OF hi])
  note ba = blk_arith [OF hb, folded p_def]
  show "GET_SIZE s (HDRP bp) = W n" using blk_reads(1) [OF hb] unfolding bp .
  show "GET_ALLOC s (HDRP bp) = 1" using blk_reads(2) [OF hb] unfolding bp by simp
  have fi: "heap_inv s' (co_xs xs @ (M, False) # co_ys ys) (co_fl xs p n ys fl)"
    "same_fields s s'" "free_listp s' = W r"
    using free_inv [OF hi p_def] unfolding s'_def bp' M_def r_def by blast+
  have h': "hwf s' (co_xs xs @ [(M, False)]) 0 (co_ys ys) (r # tl (co_fl xs p n ys fl))"
    using heap_inv_block [OF fi(1)] by (simp add: co_fl_def r_def)
  have hr: "r = hole_pos s' (co_xs xs)"
    using co_hole_pos [of s xs] hole_pos_fields [OF fi(2), of "co_xs xs"]
    by (simp add: r_def p_def)
  note hd = head_reads [OF h' hr fi(3)]
  have up: "unat (W p) = p" by (rule unat_W) (use ba(3,4,5) in linarith)
  have sh: "shape xs" using seg_arith(11) [OF hwfD(1,2) [OF hb]] by simp
  have n1: "co_n1 xs \<le> p" using co_n1_le [OF sh] by (simp add: p_def hole_pos_def)
  have F3: "GET_ALLOC s' (HDRP (free_listp s')) = 0"
    unfolding fi(3) using blk_reads(2) [OF h'] unfolding hr by simp
  have F4: "GET s' (FTRP s' (free_listp s')) = GET s' (HDRP (free_listp s'))"
    unfolding fi(3) hd(1,2) ..
  have F5: "unat (free_listp s') \<le> unat bp"
    unfolding fi(3) hd(4) bp' up by (simp add: r_def)
  have F6: "unat bp + n \<le> unat (free_listp s') + unat (GET_SIZE s' (HDRP (free_listp s')))"
    unfolding fi(3) hd(4,5,7) bp' up using n1 by (simp add: r_def M_def)
  have F7: "PREV_FREEP s' (free_listp s') = 0"
    unfolding fi(3) by (rule hd(3))
  show "GET_ALLOC (mm_free s bp) (HDRP (free_listp (mm_free s bp))) = 0"
    using F3 unfolding s'_def .
  show "GET (mm_free s bp) (FTRP (mm_free s bp) (free_listp (mm_free s bp)))
       = GET (mm_free s bp) (HDRP (free_listp (mm_free s bp)))"
    using F4 unfolding s'_def .
  show "unat (free_listp (mm_free s bp)) \<le> unat bp"
    using F5 unfolding s'_def .
  show "unat bp + n \<le> unat (free_listp (mm_free s bp))
        + unat (GET_SIZE (mm_free s bp) (HDRP (free_listp (mm_free s bp))))"
    using F6 unfolding s'_def .
  show "PREV_FREEP (mm_free s bp) (free_listp (mm_free s bp)) = 0"
    using F7 unfolding s'_def .
  show "heap_inv (mm_free s bp) (co_xs xs @ (co_n1 xs + n + co_n2 ys, False) # co_ys ys)
        (co_fl xs (hole_pos s xs) n ys fl)"
    using fi(1) unfolding s'_def M_def p_def .
  have fs: "first_pos s' = first_pos s" using fi(2) by simp
  have F9: "alloc_pos (first_pos s')
        (co_xs xs @ (co_n1 xs + n + co_n2 ys, False) # co_ys ys)
      = alloc_pos (first_pos s) xs @ alloc_pos (hole_pos s xs + n) ys"
    unfolding fs by (simp add: co_alloc hole_pos_def)
  show "alloc_pos (first_pos (mm_free s bp))
        (co_xs xs @ (co_n1 xs + n + co_n2 ys, False) # co_ys ys)
      = alloc_pos (first_pos s) xs @ alloc_pos (hole_pos s xs + n) ys"
    using F9 unfolding s'_def .
qed

section \<open>Zero-size and null requests\<close>

text \<open>
  Claim C9. Zero-size and null requests are not errors: \<^verbatim>\<open>mm_malloc(0)\<close> returns null and
  leaves the state alone; \<^verbatim>\<open>mm_free(NULL)\<close> changes nothing; \<^verbatim>\<open>mm_realloc(NULL, 0)\<close>
  changes nothing and returns null; and \<^verbatim>\<open>mm_realloc(bp, 0)\<close> frees \<^verbatim>\<open>bp\<close> and returns
  null. Freeing is stated by its effect on a well-formed heap in which \<^verbatim>\<open>bp\<close> is an
  allocated block of size \<open>n\<close> between the blocks \<open>xs\<close> and \<open>ys\<close>: afterwards the head
  of the free list is a block with the allocated bit clear in header and footer that covers
  the bytes of the old block, its previous-free link is null, the heap is well formed again
  with the old block merged into its free neighbours, and the other allocated blocks are
  the allocated blocks still.
\<close>

theorem zero_size_and_null_requests:
  "mm_malloc s 0 = Some (s, 0) \<and> mm_free s 0 = s \<and> mm_realloc s 0 0 = Some (s, 0)
   \<and> (heap_inv s (xs @ (n, True) # ys) fl \<and> bp = W (hole_pos s xs) \<longrightarrow>
        (let s' = mm_free s bp; r = free_listp s'
         in mm_realloc s bp 0 = Some (s', 0)
          \<and> GET_SIZE s (HDRP bp) = W n \<and> GET_ALLOC s (HDRP bp) = 1
          \<and> GET_ALLOC s' (HDRP r) = 0 \<and> GET s' (FTRP s' r) = GET s' (HDRP r)
          \<and> unat r \<le> unat bp \<and> unat bp + n \<le> unat r + unat (GET_SIZE s' (HDRP r))
          \<and> PREV_FREEP s' r = 0
          \<and> heap_inv s' (co_xs xs @ (co_n1 xs + n + co_n2 ys, False) # co_ys ys)
               (co_fl xs (hole_pos s xs) n ys fl)
          \<and> alloc_pos (first_pos s') (co_xs xs @ (co_n1 xs + n + co_n2 ys, False) # co_ys ys)
              = alloc_pos (first_pos s) xs @ alloc_pos (hole_pos s xs + n) ys))"
proof -
  have a: "mm_malloc s 0 = Some (s, 0) \<and> mm_free s 0 = s \<and> mm_realloc s 0 0 = Some (s, 0)"
    by (simp add: mm_malloc_def mm_free_def mm_realloc_def)
  have r: "mm_realloc s bp 0 = Some (mm_free s bp, 0)" by (simp add: mm_realloc_def)
  show ?thesis
    unfolding Let_def using a r free_effects [of s xs n ys fl bp] by blast
qed

theorem zero_size_and_null_requests_witness:
  "heap_inv heap_one_block ([] @ (32, True) # [(24, False)]) [4176]
   \<and> (4144 :: 32 word) = W (hole_pos heap_one_block [])
   \<and> mm_realloc heap_one_block 4144 0 = Some (mm_free heap_one_block 4144, 0)
   \<and> free_listp (mm_free heap_one_block 4144) = 4144
   \<and> GET_ALLOC heap_one_block (HDRP 4144) = 1
   \<and> GET_ALLOC (mm_free heap_one_block 4144) (HDRP 4144) = 0
   \<and> heap_inv (mm_free heap_one_block 4144) [(56, False)] [4144]"
proof -
  have h: "heap_inv heap_one_block ([] @ (32, True) # [(24, False)]) [4176]"
    "(4144 :: 32 word) = W (hole_pos heap_one_block [])"
    by (simp_all add: inv_eval eval_defs cong: let_weak_cong)
  have f: "free_listp (mm_free heap_one_block 4144) = 4144"
    by (simp add: eval_defs cong: let_weak_cong)
  have c: "co_xs [] @ (co_n1 [] + 32 + co_n2 [(24, False)], False) # co_ys [(24, False)]
      = [(56, False)]"
    "co_fl [] (hole_pos heap_one_block []) 32 [(24, False)] [4176] = [4144]"
    by (simp_all add: co_fl_def hole_pos_def first_pos_def lo_of_def eval_defs
        cong: let_weak_cong)
  show ?thesis
    using zero_size_and_null_requests [of heap_one_block "[]" 32 "[(24, False)]" "[4176]" 4144]
      h f c
    by (simp add: Let_def)
qed

section \<open>Reallocation to the same block size\<close>

text \<open>
  Claim C10. For a non-null \<^verbatim>\<open>bp\<close> and a size above zero whose adjusted size equals the size
  recorded in the header of \<^verbatim>\<open>bp\<close>, \<^verbatim>\<open>mm_realloc\<close> returns \<^verbatim>\<open>bp\<close> and the whole state
  (every byte of memory, the free-list head, the provider) is what it was before the call.
\<close>

theorem realloc_same_size_is_identity:
  assumes "bp \<noteq> 0" and "0 < sz" and "GET_SIZE s (HDRP bp) = adjusted sz"
  shows "mm_realloc s bp sz = Some (s, bp)"
  using assms by (simp add: mm_realloc_def adjusted_def Let_def word_le_nat_alt word_less_nat_alt)

text \<open>A 32-byte block asked to hold 24 bytes again.\<close>

theorem realloc_same_size_is_identity_witness:
  "mm_realloc heap_one_block 4144 24 = Some (heap_one_block, 4144)"
proof -
  have "GET_SIZE heap_one_block (HDRP 4144) = adjusted 24"
    using one_block_facts(3) by (simp add: adjusted_def ALIGN_def MAX_macro_def const_defs)
  then show ?thesis
    using realloc_same_size_is_identity [of 4144 24 heap_one_block] by simp
qed

section \<open>Shrinking in place\<close>

text \<open>
  Claim C1 says that a shrink whose residue is exactly the minimum block size (24 bytes)
  splits the block. The source tests \<^verbatim>\<open>oldsize - size <= OVERHEAD\<close>, so with a residue of
  exactly 24 bytes \<^verbatim>\<open>mm_realloc\<close> returns \<^verbatim>\<open>bp\<close> with the state untouched: no split.
\<close>

theorem realloc_shrink_by_min_block_not_split:
  assumes "bp \<noteq> 0" and "0 < sz" and "adjusted sz \<le> GET_SIZE s (HDRP bp)"
    and "GET_SIZE s (HDRP bp) - adjusted sz = OVERHEAD"
  shows "mm_realloc s bp sz = Some (s, bp)"
  using assms by (simp add: mm_realloc_def adjusted_def Let_def word_le_nat_alt word_less_nat_alt)

text \<open>A 56-byte block shrunk to a request of 24 bytes (adjusted size 32) stays 56 bytes.\<close>

theorem realloc_shrink_by_min_block_not_split_witness:
  "adjusted 24 = 32 \<and> GET_SIZE heap_big_block (HDRP 4144) = 56
   \<and> mm_realloc heap_big_block 4144 24 = Some (heap_big_block, 4144)"
proof -
  have a: "adjusted 24 = 32" by (simp add: adjusted_def ALIGN_def MAX_macro_def const_defs)
  have "mm_realloc heap_big_block 4144 24 = Some (heap_big_block, 4144)"
    using realloc_shrink_by_min_block_not_split [of 4144 24 heap_big_block] a big_block_facts(2)
    by (simp add: const_defs)
  then show ?thesis using a big_block_facts(2) by simp
qed

section \<open>Extending the heap\<close>

lemma unat_plus_no_wrap:
  fixes a n m :: "32 word"
  assumes "unat a + unat n \<le> unat m"
  shows "unat (a + n) = unat a + unat n"
proof -
  have "unat a + unat n < 2 ^ LENGTH(32)" using assms lt32 [of m] by simp
  then show ?thesis by (rule unat_add_lem [THEN iffD1])
qed

lemma extend_heap_grows:
  assumes sz: "sz = (let sz0 = (if words mod 2 \<noteq> 0 then (words + 1) * WSIZE else words * WSIZE)
                      in if sz0 < OVERHEAD then OVERHEAD else sz0)"
    and room: "unat (mem_brk s) + unat sz \<le> unat (mem_max_addr s)"
    and pos: "sz \<noteq> 0"
  shows "mem_brk (fst (extend_heap s words)) = mem_brk s + sz"
proof -
  have "unat (mem_brk s) + unat sz < 4294967296" using room lt32 [of "mem_max_addr s"] by linarith
  moreover have "0 < unat sz" using pos by (simp add: unat_gt_0)
  ultimately have "unat (mem_brk s) \<noteq> 4294967295" by linarith
  moreover have "unat (- 1 :: 32 word) = 4294967295"
    by (simp add: unsigned_minus_1_eq_mask mask_eq_exp_minus_1)
  ultimately have "mem_brk s \<noteq> - 1" by metis
  then show ?thesis
    using sz room by (simp add: extend_heap_def mem_sbrk_def Let_def split: prod.splits)
qed

lemma extend_heap_refused:
  assumes sz: "sz = (let sz0 = (if words mod 2 \<noteq> 0 then (words + 1) * WSIZE else words * WSIZE)
                      in if sz0 < OVERHEAD then OVERHEAD else sz0)"
    and room: "\<not> unat (mem_brk s) + unat sz \<le> unat (mem_max_addr s)"
  shows "extend_heap s words = (s, 0)"
  using sz room by (simp add: extend_heap_def mem_sbrk_def Let_def)

section \<open>Growing by reallocation\<close>

lemma memcpy_inside: "x - dst < n \<Longrightarrow> memcpy m dst src n x = m (src + (x - dst))"
  by (simp add: memcpy_def)

lemma memcpy_outside: "\<not> x - dst < n \<Longrightarrow> memcpy m dst src n x = m x"
  by (simp add: memcpy_def)

text \<open>
  Claim C2 says that a growing \<^verbatim>\<open>mm_realloc\<close> copies \<open>min(size, o - 8)\<close> bytes, the old
  payload. On the heap with one 32-byte block at 4144, \<^verbatim>\<open>mm_realloc(4144, 100)\<close> moves the
  block to 4176. The old payload is 24 bytes, but the word at offset 24 of the new block,
  zero after the allocation, holds 33 afterwards: the old block's footer was copied too.
  Freeing after a copy of 24 bytes would have left it zero.
\<close>

theorem realloc_copies_payload_only_counterexample:
  "GET_SIZE heap_one_block (HDRP 4144) = 32
   \<and> snd (the (mm_malloc heap_one_block 100)) = 4176
   \<and> snd (the (mm_realloc heap_one_block 4144 100)) = 4176
   \<and> min 100 (GET_SIZE heap_one_block (HDRP 4144) - DSIZE) = 24
   \<and> GET heap_one_block (4144 + 24) = 33
   \<and> GET (fst (the (mm_malloc heap_one_block 100))) (4176 + 24) = 0
   \<and> GET (fst (the (mm_realloc heap_one_block 4144 100))) (4176 + 24) = 33
   \<and> GET (mm_free ((fst (the (mm_malloc heap_one_block 100)))
             \<lparr>mem := memcpy (mem (fst (the (mm_malloc heap_one_block 100)))) 4176 4144 24\<rparr>) 4144)
          (4176 + 24) = 0"
  by (simp add: eval_defs cong: let_weak_cong)

text \<open>
  The heap with the 32-byte block and no room left: the provider refuses every request.
\<close>

definition heap_full :: state where
  "heap_full = heap_one_block\<lparr>mem_max_addr := 4200\<rparr>"

lemma heap_full_facts:
  "find_fit heap_full (adjusted 100) = Some 0"
  "\<not> unat (mem_brk heap_full) + unat (adjusted 100) \<le> unat (mem_max_addr heap_full)"
  "GET_SIZE heap_full (HDRP 4144) < adjusted 100"
  by (simp_all add: heap_full_def eval_defs cong: let_weak_cong)

text \<open>
  Claim C2 as amended. For a non-null \<^verbatim>\<open>bp\<close>, a size above zero and an adjusted size above
  the old block size \<open>o\<close>: \<^verbatim>\<open>mm_realloc\<close> calls \<^verbatim>\<open>mm_malloc(size)\<close>; a null result is
  passed on, and when no free block fits and the provider refuses to grow the state is
  unchanged; otherwise exactly \<open>min(size, o)\<close> bytes, \<open>o\<close> being the whole block size with
  header and footer, are copied from \<^verbatim>\<open>bp\<close> to the new block, \<^verbatim>\<open>bp\<close> is freed and the new
  pointer returned. The effects are shown on the move of the 32-byte block at 4144 to a
  block for 100 bytes at 4176: the eight words at 4176 are the eight words that were at 4144
  (payload, footer and the header after it), the ninth is untouched, the new block stays
  allocated, and header and footer of 4144 record a free block that heads the free list.
\<close>

theorem realloc_grow_copies_up_to_block_size:
  assumes "bp \<noteq> 0" and "0 < sz" and "GET_SIZE s (HDRP bp) < adjusted sz"
  shows "mm_realloc s bp sz =
           (case mm_malloc s sz of
              None \<Rightarrow> None
            | Some (s1, newbp) \<Rightarrow>
                if newbp = 0 then Some (s1, 0)
                else Some (mm_free (s1\<lparr>mem := memcpy (mem s1) newbp bp
                                               (min sz (GET_SIZE s (HDRP bp)))\<rparr>) bp, newbp))
         \<and> (find_fit s (adjusted sz) = Some 0
              \<and> \<not> unat (mem_brk s) + unat (adjusted sz) \<le> unat (mem_max_addr s)
            \<longrightarrow> mm_realloc s bp sz = Some (s, 0))
         \<and> (let s1 = fst (the (mm_malloc heap_one_block 100));
                s' = fst (the (mm_realloc heap_one_block 4144 100));
                ks = [0, 4, 8, 12, 16, 20, 24, 28]
            in snd (the (mm_realloc heap_one_block 4144 100)) = 4176
             \<and> GET s1 (HDRP 4144) = PACK 32 1 \<and> GET s1 (HDRP 4176) = PACK 112 1
             \<and> map (\<lambda>k. GET s' (4176 + k)) ks = map (\<lambda>k. GET s1 (4144 + k)) ks
             \<and> map (\<lambda>k. GET s' (4176 + k)) ks = [0, 0, 4104, 0, 24, 32, 33, 113]
             \<and> GET s' (4176 + 32) = GET s1 (4176 + 32)
             \<and> GET s' (HDRP 4176) = PACK 112 1
             \<and> GET s' (HDRP 4144) = PACK 32 0 \<and> GET s' (FTRP s' 4144) = PACK 32 0
             \<and> free_listp s' = 4144)"
proof -
  have ne: "GET_SIZE s (HDRP bp) \<noteq> adjusted sz" "\<not> adjusted sz \<le> GET_SIZE s (HDRP bp)"
    using assms(3) by auto
  have mn: "(if sz < GET_SIZE s (HDRP bp) then sz else GET_SIZE s (HDRP bp))
            = min sz (GET_SIZE s (HDRP bp))"
    by (auto simp: min_def)
  have r: "mm_realloc s bp sz =
           (case mm_malloc s sz of
              None \<Rightarrow> None
            | Some (s1, newbp) \<Rightarrow>
                if newbp = 0 then Some (s1, 0)
                else Some (mm_free (s1\<lparr>mem := memcpy (mem s1) newbp bp
                                               (min sz (GET_SIZE s (HDRP bp)))\<rparr>) bp, newbp))"
    using assms(1,2) ne
    by (auto simp: mm_realloc_def adjusted_def [symmetric] Let_def mn split: option.splits)
  have "mm_malloc s sz = Some (s, 0)"
    if f: "find_fit s (adjusted sz) = Some 0"
      and room: "\<not> unat (mem_brk s) + unat (adjusted sz) \<le> unat (mem_max_addr s)"
  proof -
    have "extend_heap s (adjusted sz div WSIZE) = (s, 0)"
    proof (rule extend_heap_refused [OF _ room])
      show "adjusted sz = (let sz0 = (if adjusted sz div WSIZE mod 2 \<noteq> 0
              then (adjusted sz div WSIZE + 1) * WSIZE else adjusted sz div WSIZE * WSIZE)
            in if sz0 < OVERHEAD then OVERHEAD else sz0)"
        using extend_size_adjusted [OF adjusted_aligned, of sz] adjusted_ge [of sz]
        by (auto simp: WSIZE_def Let_def)
    qed
    then show ?thesis
      using assms(2) f max_adjusted_chunk [of sz]
      by (auto simp: mm_malloc_def adjusted_def [symmetric] Let_def)
  qed
  then have g: "find_fit s (adjusted sz) = Some 0
              \<and> \<not> unat (mem_brk s) + unat (adjusted sz) \<le> unat (mem_max_addr s)
            \<longrightarrow> mm_realloc s bp sz = Some (s, 0)"
    using r by simp
  have c: "(let s1 = fst (the (mm_malloc heap_one_block 100));
                s' = fst (the (mm_realloc heap_one_block 4144 100));
                ks = [0, 4, 8, 12, 16, 20, 24, 28]
            in snd (the (mm_realloc heap_one_block 4144 100)) = 4176
             \<and> GET s1 (HDRP 4144) = PACK 32 1 \<and> GET s1 (HDRP 4176) = PACK 112 1
             \<and> map (\<lambda>k. GET s' (4176 + k)) ks = map (\<lambda>k. GET s1 (4144 + k)) ks
             \<and> map (\<lambda>k. GET s' (4176 + k)) ks = [0, 0, 4104, 0, 24, 32, 33, 113]
             \<and> GET s' (4176 + 32) = GET s1 (4176 + 32)
             \<and> GET s' (HDRP 4176) = PACK 112 1
             \<and> GET s' (HDRP 4144) = PACK 32 0 \<and> GET s' (FTRP s' 4144) = PACK 32 0
             \<and> free_listp s' = 4144)"
    by (simp add: eval_defs cong: let_weak_cong)
  show ?thesis using r g c by blast
qed

text \<open>
  The move of the 32-byte block, copying 32 bytes, and the same request on the heap without
  room, which is refused and changes nothing.
\<close>

theorem realloc_grow_copies_up_to_block_size_witness:
  "mm_realloc heap_one_block 4144 100 =
     Some (mm_free ((fst (the (mm_malloc heap_one_block 100)))
             \<lparr>mem := memcpy (mem (fst (the (mm_malloc heap_one_block 100)))) 4176 4144 32\<rparr>) 4144, 4176)
   \<and> mm_realloc heap_full 4144 100 = Some (heap_full, 0)"
proof -
  have h: "(4144 :: 32 word) \<noteq> 0" "0 < (100 :: 32 word)"
      "GET_SIZE heap_one_block (HDRP 4144) < adjusted 100"
    by (simp_all add: eval_defs cong: let_weak_cong)
  have m: "mm_malloc heap_one_block 100 \<noteq> None" "snd (the (mm_malloc heap_one_block 100)) = 4176"
    by (simp_all add: eval_defs cong: let_weak_cong)
  have g: "min 100 (GET_SIZE heap_one_block (HDRP 4144)) = 32"
    using one_block_facts(3) by simp
  have a: "mm_realloc heap_one_block 4144 100 =
     Some (mm_free ((fst (the (mm_malloc heap_one_block 100)))
             \<lparr>mem := memcpy (mem (fst (the (mm_malloc heap_one_block 100)))) 4176 4144 32\<rparr>) 4144, 4176)"
    using realloc_grow_copies_up_to_block_size [OF h] m g
    by (auto split: option.splits)
  have b: "mm_realloc heap_full 4144 100 = Some (heap_full, 0)"
    using realloc_grow_copies_up_to_block_size [OF h(1,2) heap_full_facts(3)] heap_full_facts(1,2)
    by blast
  show ?thesis using a b by blast
qed

section \<open>The chunk size\<close>

text \<open>
  Claim C3 says that \<^verbatim>\<open>CHUNKSIZE\<close> is 16 words, so that \<^verbatim>\<open>mm_init\<close> extends the heap by 64
  bytes and \<^verbatim>\<open>mm_malloc\<close> by at least 64 bytes. On the fresh heap \<^verbatim>\<open>mm_init\<close> succeeds and
  extends the heap by 24 bytes beyond the 48 of prologue and epilogue, and a following
  \<^verbatim>\<open>mm_malloc(24)\<close>, for which no free block fits, extends it by 32 bytes.
\<close>

theorem chunk_is_sixteen_words_counterexample:
  "snd (mm_init fresh_heap) = 0
   \<and> mem_brk heap_after_init = mem_brk fresh_heap + 2 * OVERHEAD + 24
   \<and> mem_brk heap_after_init \<noteq> mem_brk fresh_heap + 2 * OVERHEAD + 16 * WSIZE
   \<and> find_fit heap_after_init (adjusted 24) = Some 0
   \<and> adjusted 24 = 32
   \<and> mem_brk heap_one_block = mem_brk heap_after_init + 32
   \<and> mem_brk heap_one_block \<noteq> mem_brk heap_after_init + 16 * WSIZE"
  by (simp add: eval_defs cong: let_weak_cong)

text \<open>
  Claim C3 as amended. \<^verbatim>\<open>CHUNKSIZE\<close> is 16 bytes: when both requests to the provider are
  granted, \<^verbatim>\<open>mm_init\<close> extends the heap by \<^verbatim>\<open>CHUNKSIZE / WSIZE\<close> = 4 words, which the
  extender raises to the minimum block size, 24 bytes; and when \<^verbatim>\<open>mm_malloc\<close> finds no fit it
  extends the heap by \<open>max(a, 16) = a\<close> bytes, the adjusted size itself, an even number of
  words.
\<close>

theorem chunk_is_sixteen_bytes:
  "(mem_brk s \<noteq> 0 \<and> unat (mem_brk s) + 72 \<le> unat (mem_max_addr s)
      \<longrightarrow> mem_brk (fst (mm_init s)) = mem_brk s + 2 * OVERHEAD + OVERHEAD)
   \<and> (0 < sz \<and> find_fit s (adjusted sz) = Some 0
        \<and> unat (mem_brk s) + unat (adjusted sz) \<le> unat (mem_max_addr s)
      \<longrightarrow> MAX_macro (adjusted sz) CHUNKSIZE = adjusted sz
          \<and> mm_malloc s sz \<noteq> None
          \<and> mem_brk (fst (the (mm_malloc s sz))) = mem_brk s + adjusted sz)"
proof (intro conjI impI)
  assume a: "mem_brk s \<noteq> 0 \<and> unat (mem_brk s) + 72 \<le> unat (mem_max_addr s)"
  define s8 where "s8 = fst (mem_sbrk s (2 * OVERHEAD))"
  have r1: "unat (mem_brk s) + unat (2 * OVERHEAD) \<le> unat (mem_max_addr s)"
    using a by (simp add: const_defs)
  have b1: "unat (mem_brk s + 48) = unat (mem_brk s) + 48"
    using unat_plus_no_wrap [of "mem_brk s" 48 "mem_max_addr s"] a by simp
  have sb: "mem_sbrk s (2 * OVERHEAD) = (s\<lparr>mem_brk := mem_brk s + 48\<rparr>, mem_brk s)"
    using r1 by (simp add: mem_sbrk_def const_defs)
  define t where "t = (PUT (PUT (PUT (PUT (PUT (PUT (s\<lparr>mem_brk := mem_brk s + 48, heap_listp := mem_brk s\<rparr>)
      (mem_brk s) 0) (mem_brk s + WSIZE) (PACK OVERHEAD 1)) (mem_brk s + DSIZE) 0)
      (mem_brk s + DSIZE + WSIZE) 0) (mem_brk s + OVERHEAD) (PACK OVERHEAD 1))
      (mem_brk s + WSIZE + OVERHEAD) (PACK 0 1))\<lparr>free_listp := mem_brk s + DSIZE\<rparr>"
  have tb: "mem_brk t = mem_brk s + 48" "mem_max_addr t = mem_max_addr s"
    by (simp_all add: t_def)
  have init: "mm_init s = (let (s9, r) = extend_heap t (CHUNKSIZE div WSIZE)
                           in if r = 0 then (s9, - 1) else (s9, 0))"
    using a sb by (simp add: mm_init_def Let_def t_def)
  obtain s9 r where er: "extend_heap t (CHUNKSIZE div WSIZE) = (s9, r)" by fastforce
  have "mem_brk (fst (extend_heap t (CHUNKSIZE div WSIZE))) = mem_brk t + OVERHEAD"
  proof (rule extend_heap_grows)
    show "OVERHEAD = (let sz0 = (if CHUNKSIZE div WSIZE mod 2 \<noteq> 0 then (CHUNKSIZE div WSIZE + 1) * WSIZE
              else CHUNKSIZE div WSIZE * WSIZE) in if sz0 < OVERHEAD then OVERHEAD else sz0)"
      by (simp add: const_defs)
    show "unat (mem_brk t) + unat OVERHEAD \<le> unat (mem_max_addr t)"
      using a b1 by (simp add: tb const_defs)
    show "OVERHEAD \<noteq> 0" by (simp add: const_defs)
  qed
  then show "mem_brk (fst (mm_init s)) = mem_brk s + 2 * OVERHEAD + OVERHEAD"
    unfolding init er by (simp add: tb const_defs)
next
  assume a: "0 < sz \<and> find_fit s (adjusted sz) = Some 0
        \<and> unat (mem_brk s) + unat (adjusted sz) \<le> unat (mem_max_addr s)"
  show "MAX_macro (adjusted sz) CHUNKSIZE = adjusted sz" by (rule max_adjusted_chunk)
  have nz: "adjusted sz \<noteq> 0" using adjusted_ge [of sz] by (auto simp: const_defs)
  obtain s1 bp1 where er: "extend_heap s (adjusted sz div WSIZE) = (s1, bp1)" by fastforce
  have e: "mem_brk (fst (extend_heap s (adjusted sz div WSIZE))) = mem_brk s + adjusted sz"
  proof (rule extend_heap_grows)
    show "adjusted sz = (let sz0 = (if adjusted sz div WSIZE mod 2 \<noteq> 0
              then (adjusted sz div WSIZE + 1) * WSIZE else adjusted sz div WSIZE * WSIZE)
            in if sz0 < OVERHEAD then OVERHEAD else sz0)"
      using extend_size_adjusted [OF adjusted_aligned, of sz] adjusted_ge [of sz]
      by (auto simp: WSIZE_def Let_def)
    show "unat (mem_brk s) + unat (adjusted sz) \<le> unat (mem_max_addr s)" using a by simp
    show "adjusted sz \<noteq> 0" by (rule nz)
  qed
  have m: "mm_malloc s sz = (let (s1, bp1) = extend_heap s (adjusted sz div WSIZE)
                 in if bp1 = 0 then Some (s1, 0) else Some (place s1 bp1 (adjusted sz), bp1))"
    using a max_adjusted_chunk [of sz]
    by (auto simp: mm_malloc_def adjusted_def [symmetric] Let_def)
  show "mm_malloc s sz \<noteq> None" unfolding m er by simp
  show "mem_brk (fst (the (mm_malloc s sz))) = mem_brk s + adjusted sz"
    using e unfolding m er by simp
qed

text \<open>Both parts on the fresh heap: 72 bytes after \<^verbatim>\<open>mm_init\<close>, 32 more for 24 bytes.\<close>

theorem chunk_is_sixteen_bytes_witness:
  "mem_brk (fst (mm_init fresh_heap)) = mem_brk fresh_heap + 72
   \<and> mm_malloc heap_after_init 24 \<noteq> None
   \<and> mem_brk (fst (the (mm_malloc heap_after_init 24))) = mem_brk heap_after_init + adjusted 24"
proof -
  have 1: "mem_brk fresh_heap \<noteq> 0 \<and> unat (mem_brk fresh_heap) + 72 \<le> unat (mem_max_addr fresh_heap)"
    by (simp add: fresh_heap_def)
  have 2: "0 < (24 :: 32 word) \<and> find_fit heap_after_init (adjusted 24) = Some 0
     \<and> unat (mem_brk heap_after_init) + unat (adjusted 24) \<le> unat (mem_max_addr heap_after_init)"
    by (simp add: eval_defs cong: let_weak_cong)
  show ?thesis
    using chunk_is_sixteen_bytes [of fresh_heap 24] chunk_is_sixteen_bytes [of heap_after_init 24] 1 2
    by (simp add: const_defs)
qed

section \<open>The consistency checker\<close>

text \<open>
  Claim C5 says that \<^verbatim>\<open>mm_check\<close> returns 0 right after a successful \<^verbatim>\<open>mm_init\<close>. The
  checker runs \<^verbatim>\<open>check_block\<close> on \<^verbatim>\<open>heap_listp\<close>, which still points at the padding word
  \<^verbatim>\<open>mm_init\<close> zeroed; \<^verbatim>\<open>check_block\<close> reads that word as a previous-free link and rejects
  it as below the heap. So whenever the padding word is zero and the heap does not start at
  address 0, \<^verbatim>\<open>mm_check\<close> returns -1.
\<close>

theorem mm_check_rejects_zero_pad:
  assumes "mem_heap_lo s \<noteq> 0" and "GET s (heap_listp s) = 0"
  shows "mm_check s = Some (- 1)"
proof -
  have "PREV_FREEP s (heap_listp s) < mem_heap_lo s"
    using assms by (simp add: PREV_FREEP_def word_gt_0)
  then have "check_block s (heap_listp s) = - 1"
    by (simp add: check_block_def)
  then show ?thesis by (simp add: mm_check_def)
qed

text \<open>The heap right after a successful \<^verbatim>\<open>mm_init\<close>.\<close>

theorem mm_check_rejects_zero_pad_witness:
  "snd (mm_init fresh_heap) = 0 \<and> mm_check heap_after_init = Some (- 1)"
proof -
  have "mem_heap_lo heap_after_init \<noteq> 0" "GET heap_after_init (heap_listp heap_after_init) = 0"
    by (simp_all add: eval_defs cong: let_weak_cong)
  then show ?thesis
    using mm_check_rejects_zero_pad [of heap_after_init] init_succeeds by simp
qed

section \<open>Requests close to the word size\<close>

text \<open>
  Claim C6 says that a block returned by \<^verbatim>\<open>mm_malloc\<close> has room for the request. The
  adjusted size is computed in 32-bit arithmetic: for a request above \<open>2^32 - 16\<close> it wraps
  to the minimum, 24, and the request is served from the first free block of 24 bytes as if
  16 bytes had been asked for.
\<close>

theorem malloc_huge_request_served_as_minimum:
  assumes "0xFFFFFFF0 < sz" and "find_fit s OVERHEAD = Some bp" and "bp \<noteq> 0"
  shows "mm_malloc s sz = Some (place s bp OVERHEAD, bp)"
proof -
  have "sz \<noteq> 0" using assms(1) by auto
  moreover have "MAX_macro (ALIGN sz + DSIZE) OVERHEAD = OVERHEAD"
    using adjusted_overflow [OF assms(1)] by (simp add: adjusted_def)
  ultimately show ?thesis
    using assms(2,3) by (simp add: mm_malloc_def)
qed

text \<open>
  After \<^verbatim>\<open>mm_init\<close>, \<^verbatim>\<open>mm_malloc(0xFFFFFFF9)\<close> returns the free block at 4144, allocated
  with a header size of 24.
\<close>

theorem malloc_huge_request_served_as_minimum_witness:
  "mm_malloc heap_after_init 0xFFFFFFF9 = Some (place heap_after_init 4144 OVERHEAD, 4144)
   \<and> GET_SIZE (place heap_after_init 4144 OVERHEAD) (HDRP 4144) = 24
   \<and> GET_ALLOC (place heap_after_init 4144 OVERHEAD) (HDRP 4144) = 1"
proof -
  have f: "find_fit heap_after_init OVERHEAD = Some 4144"
    by (simp add: eval_defs cong: let_weak_cong)
  have g: "GET_SIZE (place heap_after_init 4144 OVERHEAD) (HDRP 4144) = 24"
      "GET_ALLOC (place heap_after_init 4144 OVERHEAD) (HDRP 4144) = 1"
    by (simp_all add: eval_defs cong: let_weak_cong)
  show ?thesis
    using malloc_huge_request_served_as_minimum [of "0xFFFFFFF9" heap_after_init 4144] f g
    by simp
qed

section \<open>The coalescer on a well-formed heap\<close>

text \<open>
  Claim C7. The coalescer is given a block \<^verbatim>\<open>bp\<close> whose header and footer are tagged free
  and which is not in the free list, in a heap tiled by the blocks \<open>xs\<close>, the block itself
  (size \<open>n\<close>) and the blocks \<open>ys\<close>, with \<open>fl\<close> the free list holding the free blocks of
  \<open>xs\<close> and \<open>ys\<close>. It reads the allocated bit in the footer of the previous block and in
  the header of the next block; these say whether the neighbours are free. The block it
  returns is the previous block when that is free and \<^verbatim>\<open>bp\<close> otherwise; its size is the
  size of \<^verbatim>\<open>bp\<close> plus the sizes of the free neighbours; header and footer of the
  returned block hold that size tagged free; the free neighbours are unlinked; the returned
  block is the new head of the free list, with a null previous-free link; and the heap is
  tiled by the remaining blocks with the merged block in place of the three. When both
  neighbours are allocated the tags are the ones already there and only the insertion
  writes.
\<close>

theorem coalesce_four_cases:
  assumes wf: "hwf s (xs @ [(n, False)]) 0 ys fl"
    and bp: "bp = W (hole_pos s xs)"
    and unl: "hole_pos s xs \<notin> set fl"
    and lst: "set fl = set (free_pos (first_pos s) xs) \<union> set (free_pos (hole_pos s xs + n) ys)"
  shows "let prev = PREV_BLKP s bp; nxt = NEXT_BLKP s bp;
             pfree = (GET_ALLOC s (FTRP s prev) = 0 \<and> prev \<noteq> bp);
             nfree = (GET_ALLOC s (HDRP nxt) = 0);
             sz = GET_SIZE s (HDRP bp) + (if pfree then GET_SIZE s (HDRP prev) else 0)
                    + (if nfree then GET_SIZE s (HDRP nxt) else 0);
             r = (if pfree then prev else bp);
             s' = fst (coalesce s bp)
         in (pfree \<longleftrightarrow> prev_free xs) \<and> (nfree \<longleftrightarrow> next_free ys)
          \<and> snd (coalesce s bp) = r
          \<and> GET s' (HDRP r) = PACK sz 0 \<and> GET s' (FTRP s' r) = PACK sz 0
          \<and> free_listp s' = r \<and> PREV_FREEP s' r = 0
          \<and> hwf s' (co_xs xs @ [(unat sz, False)]) 0 (co_ys ys)
               (unat r # (if nfree then remove1 (unat nxt) else id)
                            ((if pfree then remove1 (unat prev) else id) fl))"
proof -
  define p where "p = hole_pos s xs"
  define M where "M = co_n1 xs + n + co_n2 ys"
  define r where "r = p - co_n1 xs"
  define s' where "s' = fst (coalesce s bp)"
  have bp': "bp = W p" using bp p_def by simp
  note nr = neighbour_reads [OF wf p_def, folded bp']
  have inl: "set (free_pos (first_pos s) xs) \<subseteq> set fl"
    and inr: "set (free_pos (p + n) ys) \<subseteq> set fl" using lst p_def by blast+
  have unl': "p \<notin> set fl" using unl p_def by simp
  have co': "snd (coalesce s bp) = W r"
    "hwf s' (co_xs xs @ [(M, False)]) 0 (co_ys ys) (co_fl xs p n ys fl)"
    "same_fields s s'" "free_listp s' = W r"
    using coalesce_hwf [OF wf p_def unl' inl inr] unfolding bp' s'_def M_def r_def by blast+
  have sf: "same_fields s s'" by (rule co'(3))
  have hr: "r = hole_pos s' (co_xs xs)"
    using co_hole_pos [of s xs] hole_pos_fields [OF sf, of "co_xs xs"] by (simp add: r_def p_def)
  have h': "hwf s' (co_xs xs @ [(M, False)]) 0 (co_ys ys) (r # tl (co_fl xs p n ys fl))"
    using co'(2) by (simp add: co_fl_def r_def)
  note hd = head_reads [OF h' hr co'(4)]
  note ba = blk_arith [OF wf, folded p_def]
  have PF: "(GET_ALLOC s (FTRP s (PREV_BLKP s bp)) = 0 \<and> PREV_BLKP s bp \<noteq> bp) = prev_free xs"
    using nr(1) by simp
  have NF: "(GET_ALLOC s (HDRP (NEXT_BLKP s bp)) = 0) = next_free ys"
    using nr(6) by simp
  have SZ: "GET_SIZE s (HDRP bp) + (if prev_free xs then GET_SIZE s (HDRP (PREV_BLKP s bp)) else 0)
        + (if next_free ys then GET_SIZE s (HDRP (NEXT_BLKP s bp)) else 0) = W M"
    using nr(3,7,8) by (simp add: M_def W_add W_numeral add_ac)
  have R: "(if prev_free xs then PREV_BLKP s bp else bp) = W r"
    using nr(2) by (simp add: r_def bp')
  have UN: "unat (NEXT_BLKP s bp) = p + n"
    unfolding nr(5) by (rule unat_W) (use ba(3,4) in linarith)
  have UP: "unat (PREV_BLKP s bp) = r" if "prev_free xs"
    unfolding nr(2) [OF that] r_def by (rule unat_W) (use ba(3,4,5) in linarith)
  have FL: "unat (W r) # (if next_free ys then remove1 (unat (NEXT_BLKP s bp)) else id)
                  ((if prev_free xs then remove1 (unat (PREV_BLKP s bp)) else id) fl)
            = co_fl xs p n ys fl"
  proof (cases "prev_free xs")
    case True
    show ?thesis unfolding hd(4) UN UP [OF True] co_fl_def r_def [symmetric] using True by simp
  next
    case False
    show ?thesis unfolding hd(4) UN co_fl_def r_def [symmetric] using False by simp
  qed
  have T: "PACK (W M) 0 = tag M False" by (rule PACK_tag)
  show ?thesis
    unfolding Let_def PF NF SZ R s'_def [symmetric] hd(7) FL T
    using co'(1,2,4) hd(1,2,3) by simp
qed

text \<open>
  Three neighbouring blocks at 4144, 4176 and 4208; the outer two are freed, the middle
  one is tagged free but not yet listed.
\<close>

definition heap_three :: state where
  "heap_three =
     (let s1 = fst (the (mm_malloc heap_one_block 24));
          s2 = fst (the (mm_malloc s1 24));
          s3 = mm_free (mm_free s2 4144) 4208;
          s4 = PUT s3 (HDRP 4176) (PACK 32 0)
      in PUT s4 (FTRP s4 4176) (PACK 32 0))"

lemma heap_three_facts:
  "hwf heap_three ([(32, False)] @ [(32, False)]) 0 [(56, False)] [4208, 4144]"
  "(4176 :: 32 word) = W (hole_pos heap_three [(32, False)])"
  "hole_pos heap_three [(32, False)] \<notin> set [4208, 4144]"
  "set [4208, 4144] = set (free_pos (first_pos heap_three) [(32, False)])
      \<union> set (free_pos (hole_pos heap_three [(32, False)] + 32) [(56, False)])"
  by (simp_all add: heap_three_def inv_eval eval_defs cong: let_weak_cong)

theorem coalesce_four_cases_witness:
  "PREV_BLKP heap_three 4176 = 4144 \<and> NEXT_BLKP heap_three 4176 = 4208
   \<and> snd (coalesce heap_three 4176) = 4144
   \<and> GET (fst (coalesce heap_three 4176)) (HDRP 4144) = PACK 120 0
   \<and> free_listp (fst (coalesce heap_three 4176)) = 4144
   \<and> hwf (fst (coalesce heap_three 4176)) [(120, False)] 0 [] [4144]"
proof -
  have e: "PREV_BLKP heap_three 4176 = 4144" "NEXT_BLKP heap_three 4176 = 4208"
    "GET_ALLOC heap_three (FTRP heap_three 4144) = 0" "GET_ALLOC heap_three (HDRP 4208) = 0"
    "GET_SIZE heap_three (HDRP 4176) = 32" "GET_SIZE heap_three (HDRP 4144) = 32"
    "GET_SIZE heap_three (HDRP 4208) = 56"
    by (simp_all add: heap_three_def eval_defs cong: let_weak_cong)
  show ?thesis
    using coalesce_four_cases [OF heap_three_facts]
    by (simp add: Let_def e co_xs_def co_ys_def prev_free_def next_free_def)
qed

end
